theory Spec2Isabelle
  imports Main "HOL-Library.Word"
begin

section \<open>The silence detector of \<open>audio/silence.go\<close>\<close>

text \<open>
  The detector keeps two buffers: the raw samples (\<open>[]int32\<close>) and one audio level
  (\<open>float64\<close>) per analysed window of samples. \<open>Add\<close> appends a chunk, computes the
  levels of the new full windows, prunes the silence at the start and cuts the buffer at
  every silence that lasted long enough.

  Modelling decisions, each visible in the definitions below:
  \<^item> \<open>time.Duration\<close> is an \<open>int64\<close> of nanoseconds: \<open>64 word\<close>, read with \<open>sint\<close>,
    so that the product in \<open>processSilencesInTheMiddle\<close> wraps as Go's does.
  \<^item> Samples are \<open>int32\<close>: \<open>32 word\<close>.
  \<^item> Levels are \<open>float64\<close> in the source. The code only stores them and compares them
    with \<open><\<close>; the model takes any type \<open>'l\<close> with a \<open><\<close> and assumes no law of it
    (so a comparison with NaN being false is covered).
  \<^item> \<open>AudioLevel\<close> is a function of the package that is not in this file: it is the
    parameter \<open>AudioLevel\<close> of the model.
  \<^item> Go's \<open>int\<close> (lengths, indices, counters) has 64 bits and wraps around; the model
    computes with \<open>int\<close>, which does not. The two agree as long as the product of line 52
    (the number of levels times the number of samples per window) and the difference of
    line 55 fit in 64 bits. Every other integer that \<open>Add\<close> computes is then in range:
    for a window of at least one sample, past the test of line 58, it lies between 0 and
    the length of the samples; for a negative window size it lies between the product of
    line 52 and 0. A theorem whose other hypotheses do not bound the product by the length
    of the samples has the hypothesis that it fits.
  \<^item> The number of samples per window is computed in \<open>float64\<close>:
    \<open>int(math.Floor(float64(sampleRate) * d.c.StepDuration.Seconds()))\<close>. Floating point
    is not modelled; the model's \<open>Add\<close> receives the value of that expression,
    \<open>audioLevelAnalysisSamplesCount\<close>, in place of \<open>sampleRate\<close>.
  \<^item> A slice expression out of range panics: the model returns \<open>Inl\<close> of an error.
\<close>

subsection \<open>Data\<close>

record SilenceDetectorConfiguration =
  SilenceMinDuration :: "64 word"
  StepDuration :: "64 word"

record 'l SilenceDetector =
  audioLevels :: "'l list"
  c :: SilenceDetectorConfiguration
  samples :: "32 word list"

text \<open>The runtime panics of the slice expressions and of \<open>make\<close>.\<close>

datatype error =
  SliceBoundsOutOfRange
  | MakeLenOutOfRange

definition Second :: "64 word" where
  "Second = 1000000000"

definition Millisecond :: "64 word" where
  "Millisecond = 1000000"

subsection \<open>Slice expressions\<close>

text \<open>
  \<open>s[low:]\<close> panics unless \<open>0 \<le> low \<le> len(s)\<close>. \<open>s[:high]\<close> and \<open>s[low:high]\<close> panic
  unless \<open>0 \<le> low \<le> high \<le> cap(s)\<close>; the model has no capacities and takes the
  length as the bound (between the length and the capacity Go would read elements of the
  backing array that are not part of the slice). In \<open>Add\<close> the difference does not show:
  line 69 stays within the length, and where line 124 goes beyond the length of the
  samples, line 128 goes beyond the length of the levels and panics.
\<close>

definition slice_from :: "'a list \<Rightarrow> int \<Rightarrow> error + 'a list" where
  "slice_from s low =
     (if 0 \<le> low \<and> low \<le> int (length s) then Inr (drop (nat low) s)
      else Inl SliceBoundsOutOfRange)"

definition slice_to :: "'a list \<Rightarrow> int \<Rightarrow> error + 'a list" where
  "slice_to s high =
     (if 0 \<le> high \<and> high \<le> int (length s) then Inr (take (nat high) s)
      else Inl SliceBoundsOutOfRange)"

definition slice :: "'a list \<Rightarrow> int \<Rightarrow> int \<Rightarrow> error + 'a list" where
  "slice s low high =
     (if 0 \<le> low \<and> low \<le> high \<and> high \<le> int (length s)
      then Inr (take (nat (high - low)) (drop (nat low) s))
      else Inl SliceBoundsOutOfRange)"

subsection \<open>Construction and reset\<close>

definition Reset :: "'l SilenceDetector \<Rightarrow> 'l SilenceDetector" where
  "Reset d = d\<lparr>audioLevels := [], samples := []\<rparr>"

definition NewSilenceDetector :: "SilenceDetectorConfiguration \<Rightarrow> 'l SilenceDetector" where
  "NewSilenceDetector cfg =
     (let d = Reset \<lparr>audioLevels = [], c = cfg, samples = []\<rparr>;
          d = (if SilenceMinDuration (c d) = 0
               then d\<lparr>c := (c d)\<lparr>SilenceMinDuration := Second\<rparr>\<rparr> else d);
          d = (if StepDuration (c d) = 0
               then d\<lparr>c := (c d)\<lparr>StepDuration := 30 * Millisecond\<rparr>\<rparr> else d)
      in d)"

subsection \<open>Cutting at a silence\<close>

text \<open>The test of line 118: \<open>time.Duration(silencesCount)*d.c.StepDuration >=
  d.c.SilenceMinDuration\<close>, a signed comparison of 64-bit values, the product wrapping.\<close>

definition tooManySilences :: "SilenceDetectorConfiguration \<Rightarrow> int \<Rightarrow> bool" where
  "tooManySilences cfg silencesCount =
     (sint (SilenceMinDuration cfg) \<le> sint (word_of_int silencesCount * StepDuration cfg))"

text \<open>Lines 118 to 130. \<open>make\<close> panics on a negative length. In \<open>Add\<close> the number of
  windows \<open>i - silencesCount\<close> is at most the number of levels that the scan started
  with, so that the product of line 120 is Go's whenever that number of levels times the
  window size fits in 64 bits.\<close>

definition processSilencesInTheMiddle ::
  "'l SilenceDetector \<Rightarrow> int \<Rightarrow> int \<Rightarrow> int \<Rightarrow> 32 word list list
     \<Rightarrow> error + (32 word list list \<times> 'l SilenceDetector)" where
  "processSilencesInTheMiddle d audioLevelAnalysisSamplesCount i silencesCount validSamples =
     (if tooManySilences (c d) silencesCount then
        (let end = (i - silencesCount) * audioLevelAnalysisSamplesCount in
         if end < 0 then Inl MakeLenOutOfRange
         else case slice_to (samples d) end of
           Inl e \<Rightarrow> Inl e
         | Inr seg \<Rightarrow>
            (case slice_from (audioLevels d) (i - silencesCount) of
               Inl e \<Rightarrow> Inl e
             | Inr ls \<Rightarrow>
                (case slice_from (samples d) end of
                   Inl e \<Rightarrow> Inl e
                 | Inr ss \<Rightarrow>
                     Inr (validSamples @ [seg], d\<lparr>audioLevels := ls, samples := ss\<rparr>))))
      else Inr (validSamples, d))"

subsection \<open>The loops of \<open>Add\<close>\<close>

text \<open>Lines 63 to 70: the levels of the new windows, \<open>i\<close> running from its start value up
  to the bound.\<close>

function computeAudioLevels ::
  "(32 word list \<Rightarrow> 'l) \<Rightarrow> int \<Rightarrow> int \<Rightarrow> int \<Rightarrow> int \<Rightarrow> 'l SilenceDetector
     \<Rightarrow> error + 'l SilenceDetector" where
  "computeAudioLevels AudioLevel audioLevelAnalysisSamplesCount processedSamplesCount bound i d =
     (if i < bound then
        (let start = processedSamplesCount + i * audioLevelAnalysisSamplesCount;
             end = start + audioLevelAnalysisSamplesCount
         in case slice (samples d) start end of
              Inl e \<Rightarrow> Inl e
            | Inr w \<Rightarrow>
                computeAudioLevels AudioLevel audioLevelAnalysisSamplesCount
                  processedSamplesCount bound (i + 1)
                  (d\<lparr>audioLevels := audioLevels d @ [AudioLevel w]\<rparr>))
      else Inr d)"
  by pat_completeness auto
termination
  by (relation "measure (\<lambda>(AL, n, p, bound, i, d). nat (bound - i))") auto

declare computeAudioLevels.simps [simp del]

text \<open>Lines 73 to 80: the number of levels below the threshold at the start.\<close>

fun countSilencesAtStart :: "'l::ord \<Rightarrow> 'l list \<Rightarrow> int" where
  "countSilencesAtStart silenceMaxAudioLevel [] = 0"
| "countSilencesAtStart silenceMaxAudioLevel (l # ls) =
     (if l < silenceMaxAudioLevel then 1 + countSilencesAtStart silenceMaxAudioLevel ls
      else 0)"

text \<open>Lines 83 to 86. The silences counted are at most the levels, so that the product of
  line 85 is Go's whenever the number of levels times the window size fits in 64 bits.\<close>

definition keepOneSilenceAtStart ::
  "'l SilenceDetector \<Rightarrow> int \<Rightarrow> int \<Rightarrow> error + 'l SilenceDetector" where
  "keepOneSilenceAtStart d audioLevelAnalysisSamplesCount silencesCount =
     (if silencesCount > 1 then
        (case slice_from (audioLevels d) (silencesCount - 1) of
           Inl e \<Rightarrow> Inl e
         | Inr ls \<Rightarrow>
            (case slice_from (samples d) ((silencesCount - 1) * audioLevelAnalysisSamplesCount) of
               Inl e \<Rightarrow> Inl e
             | Inr ss \<Rightarrow> Inr (d\<lparr>audioLevels := ls, samples := ss\<rparr>)))
      else Inr d)"

text \<open>Lines 96 to 108: the scan from index 1. The index is not changed when the buffers
  are cut, and the loop condition reads the length of the levels as they are then. The
  loop returns the index and the counter it ends with, for the call of line 111.\<close>

function processSilences ::
  "'l::ord \<Rightarrow> int \<Rightarrow> 'l SilenceDetector \<Rightarrow> int \<Rightarrow> int \<Rightarrow> 32 word list list
     \<Rightarrow> error + (32 word list list \<times> 'l SilenceDetector \<times> int \<times> int)" where
  "processSilences silenceMaxAudioLevel audioLevelAnalysisSamplesCount d i silencesCount validSamples =
     (if i < int (length (audioLevels d)) then
        (if audioLevels d ! nat i < silenceMaxAudioLevel then
           processSilences silenceMaxAudioLevel audioLevelAnalysisSamplesCount d (i + 1)
             (silencesCount + 1) validSamples
         else
           (case processSilencesInTheMiddle d audioLevelAnalysisSamplesCount i silencesCount
                   validSamples of
              Inl e \<Rightarrow> Inl e
            | Inr (validSamples', d') \<Rightarrow>
                processSilences silenceMaxAudioLevel audioLevelAnalysisSamplesCount d' (i + 1) 0
                  validSamples'))
      else Inr (validSamples, d, i, silencesCount))"
  by pat_completeness auto
termination
proof (relation "measure (\<lambda>(thr, n, d, i, sc, vs). nat (int (length (audioLevels d)) - i))")
  show "wf (measure (\<lambda>(thr :: 'l, n :: int, d :: 'l SilenceDetector, i :: int, sc :: int,
      vs :: 32 word list list). nat (int (length (audioLevels d)) - i)))"
    by simp
next
  fix thr :: 'l and n :: int and d :: "'l SilenceDetector" and i sc :: int
    and vs :: "32 word list list"
  assume "i < int (length (audioLevels d))"
  then show "((thr, n, d, i + 1, sc + 1, vs), (thr, n, d, i, sc, vs))
      \<in> measure (\<lambda>(thr, n, d, i, sc, vs). nat (int (length (audioLevels d)) - i))"
    by simp
next
  fix thr :: 'l and n :: int and d :: "'l SilenceDetector" and i sc :: int
    and vs vs' :: "32 word list list" and x2 and d' :: "'l SilenceDetector"
  assume lt: "i < int (length (audioLevels d))"
    and p: "processSilencesInTheMiddle d n i sc vs = Inr x2"
    and x2: "(vs', d') = x2"
  from p x2 have "length (audioLevels d') \<le> length (audioLevels d)"
    by (auto simp: processSilencesInTheMiddle_def slice_from_def Let_def
        split: if_splits sum.splits)
  with lt show "((thr, n, d', i + 1, 0, vs'), (thr, n, d, i, sc, vs))
      \<in> measure (\<lambda>(thr, n, d, i, sc, vs). nat (int (length (audioLevels d)) - i))"
    by simp
qed

declare processSilences.simps [simp del]

subsection \<open>\<open>Add\<close>\<close>

text \<open>
  The bound of the loop of line 63 is
  \<open>int(math.Floor(float64(processableSamplesCount)/float64(audioLevelAnalysisSamplesCount)))\<close>.
  For a divisor other than 0 and lengths below \<open>2^53\<close> the quotient's floor is the
  integer division rounding down, which is \<open>div\<close> on \<open>int\<close>. For the divisor 0 the
  quotient is an infinity or NaN, whose conversion to \<open>int\<close> the language leaves to the
  implementation. The model takes what the conversion gives on amd64, the least \<open>int\<close>,
  \<open>-2^63\<close>, so that the loop does not run. (Other platforms differ: on arm64 the
  conversion of \<open>+Inf\<close> saturates to the greatest \<open>int\<close>, and the loop runs on, each
  time with an empty window. The theorems about a window of no sample are about amd64.)
\<close>

definition levelsToCompute :: "int \<Rightarrow> int \<Rightarrow> int" where
  "levelsToCompute processableSamplesCount audioLevelAnalysisSamplesCount =
     (if audioLevelAnalysisSamplesCount = 0 then - (2 ^ 63)
      else processableSamplesCount div audioLevelAnalysisSamplesCount)"

definition Add ::
  "(32 word list \<Rightarrow> 'l) \<Rightarrow> 'l::ord SilenceDetector \<Rightarrow> 32 word list \<Rightarrow> int \<Rightarrow> 'l
     \<Rightarrow> error + (32 word list list \<times> 'l SilenceDetector)" where
  "Add AudioLevel d0 smpls audioLevelAnalysisSamplesCount silenceMaxAudioLevel =
     (let d = d0\<lparr>samples := samples d0 @ smpls\<rparr>;
          processedSamplesCount = int (length (audioLevels d)) * audioLevelAnalysisSamplesCount;
          processableSamplesCount = int (length (samples d)) - processedSamplesCount
      in
      if processableSamplesCount < audioLevelAnalysisSamplesCount then Inr ([], d)
      else
        (case computeAudioLevels AudioLevel audioLevelAnalysisSamplesCount processedSamplesCount
                (levelsToCompute processableSamplesCount audioLevelAnalysisSamplesCount) 0 d of
           Inl e \<Rightarrow> Inl e
         | Inr d \<Rightarrow>
            (case keepOneSilenceAtStart d audioLevelAnalysisSamplesCount
                    (countSilencesAtStart silenceMaxAudioLevel (audioLevels d)) of
               Inl e \<Rightarrow> Inl e
             | Inr d \<Rightarrow>
                 if int (length (audioLevels d)) \<le> 1 then Inr ([], d)
                 else
                   (case processSilences silenceMaxAudioLevel audioLevelAnalysisSamplesCount
                           d 1 0 [] of
                      Inl e \<Rightarrow> Inl e
                    | Inr (validSamples, d, i, silencesCount) \<Rightarrow>
                        processSilencesInTheMiddle d audioLevelAnalysisSamplesCount i
                          silencesCount validSamples))))"

section \<open>Notions used to state and prove the properties\<close>

text \<open>
  The two buffers are in lock-step for a window of \<open>N\<close> samples when the windows the
  levels stand for fit in the samples and every level is the level of its window,
  \<open>samples[i*N : (i+1)*N]\<close>.
\<close>

definition lockStep :: "(32 word list \<Rightarrow> 'l) \<Rightarrow> nat \<Rightarrow> 'l SilenceDetector \<Rightarrow> bool" where
  "lockStep AudioLevel N d \<longleftrightarrow>
     length (audioLevels d) * N \<le> length (samples d)
     \<and> audioLevels d
         = map (\<lambda>i. AudioLevel (take N (drop (i * N) (samples d)))) [0..<length (audioLevels d)]"

text \<open>
  \<open>cutOff N d vs d' vs'\<close>: the detector \<open>d'\<close> and the segments \<open>vs'\<close> come from \<open>d\<close> and
  \<open>vs\<close> by taking \<open>m\<close> whole windows off the front of both buffers and appending them,
  cut into segments of whole windows, to the segments.
\<close>

definition cutOff ::
  "nat \<Rightarrow> 'l SilenceDetector \<Rightarrow> 32 word list list \<Rightarrow> 'l SilenceDetector \<Rightarrow> 32 word list list
     \<Rightarrow> bool" where
  "cutOff N d vs d' vs' \<longleftrightarrow>
     c d' = c d
     \<and> (\<exists>m new. m \<le> length (audioLevels d)
          \<and> audioLevels d' = drop m (audioLevels d)
          \<and> samples d' = drop (m * N) (samples d)
          \<and> vs' = vs @ new
          \<and> concat new = take (m * N) (samples d)
          \<and> (\<forall>s \<in> set new. \<exists>k\<ge>1. length s = k * N))"

text \<open>
  The detector after lines 46 to 70 in closed form (the chunk appended, one level more for
  each new full window), and after lines 73 to 86 (all but one of the silences at the start
  dropped). \<open>computeAudioLevels_newLevels\<close> and \<open>keepOneSilenceAtStart_pruneStart\<close> below
  show that these are what the functions of the model return.
\<close>

definition newLevels ::
  "(32 word list \<Rightarrow> 'l) \<Rightarrow> nat \<Rightarrow> 'l SilenceDetector \<Rightarrow> 32 word list \<Rightarrow> 'l SilenceDetector" where
  "newLevels AudioLevel N d smpls =
     d\<lparr>audioLevels := audioLevels d @
          map (\<lambda>j. AudioLevel (take N (drop (length (audioLevels d) * N + j * N) (samples d @ smpls))))
            [0..<(length (samples d @ smpls) - length (audioLevels d) * N) div N],
       samples := samples d @ smpls\<rparr>"

definition pruneStart :: "'l::ord \<Rightarrow> nat \<Rightarrow> 'l SilenceDetector \<Rightarrow> 'l SilenceDetector" where
  "pruneStart thr N d =
     d\<lparr>audioLevels := drop (nat (countSilencesAtStart thr (audioLevels d) - 1)) (audioLevels d),
       samples := drop (nat (countSilencesAtStart thr (audioLevels d) - 1) * N) (samples d)\<rparr>"

text \<open>
  The samples that a call drops at the start of the buffer: none when the call returns at
  line 59, otherwise the first \<open>k - 1\<close> windows when \<open>k > 1\<close> levels are below the threshold
  at the start (line 85). \<open>Add_conserves\<close> below shows that these samples, the segments
  returned and the samples kept are together the buffer and the chunk.
\<close>

definition prunedAtStart ::
  "(32 word list \<Rightarrow> 'l) \<Rightarrow> 'l::ord SilenceDetector \<Rightarrow> 32 word list \<Rightarrow> int \<Rightarrow> 'l
     \<Rightarrow> 32 word list" where
  "prunedAtStart AudioLevel d smpls n thr =
     (if int (length (samples d @ smpls)) - int (length (audioLevels d)) * n < n then []
      else take (nat (countSilencesAtStart thr (audioLevels (newLevels AudioLevel (nat n) d smpls)) - 1)
                  * nat n)
             (samples d @ smpls))"

text \<open>
  A caller that feeds chunks one after another with the same sample rate, that is with the
  same number of samples per window \<open>n\<close>, each chunk with the threshold of its call. For
  each call it records the samples that the call dropped at the start of the buffer and
  the segments that the call returned. It stops at the first call that panics.
\<close>

fun AddAll ::
  "(32 word list \<Rightarrow> 'l) \<Rightarrow> 'l::ord SilenceDetector \<Rightarrow> (32 word list \<times> 'l) list \<Rightarrow> int
     \<Rightarrow> error + ((32 word list \<times> 32 word list list) list \<times> 'l SilenceDetector)" where
  "AddAll AudioLevel d [] n = Inr ([], d)"
| "AddAll AudioLevel d ((smpls, thr) # calls) n =
     (case Add AudioLevel d smpls n thr of
        Inl e \<Rightarrow> Inl e
      | Inr (vs, d') \<Rightarrow>
         (case AddAll AudioLevel d' calls n of
            Inl e \<Rightarrow> Inl e
          | Inr (outs, d'') \<Rightarrow> Inr ((prunedAtStart AudioLevel d smpls n thr, vs) # outs, d'')))"

section \<open>Basic facts\<close>

lemma Add_not_enough:
  "int (length (samples d) + length smpls) - int (length (audioLevels d)) * n < n \<Longrightarrow>
   Add AL d smpls n thr = Inr ([], d\<lparr>samples := samples d @ smpls\<rparr>)"
  by (simp add: Add_def Let_def)

lemma computeAudioLevels_eq:
  "0 \<le> n \<Longrightarrow> 0 \<le> p \<Longrightarrow> 0 \<le> i \<Longrightarrow> p + bound * n \<le> int (length (samples d)) \<Longrightarrow>
   computeAudioLevels AL n p bound i d =
     Inr (d\<lparr>audioLevels := audioLevels d @
            map (\<lambda>j. AL (take (nat n) (drop (nat p + j * nat n) (samples d)))) [nat i..<nat bound]\<rparr>)"
proof (induction AL n p bound i d rule: computeAudioLevels.induct)
  case (1 AL n p bound i d)
  show ?case
  proof (cases "i < bound")
    case False
    then show ?thesis by (simp add: computeAudioLevels.simps [of AL n p bound i d])
  next
    case True
    have "(i + 1) * n \<le> bound * n"
      using True "1.prems"(1) by (intro mult_right_mono) auto
    then have rng: "p + i * n + n \<le> int (length (samples d))"
      using "1.prems"(4) by (simp add: algebra_simps)
    have nn: "0 \<le> i * n" using "1.prems" by simp
    have sl: "slice (samples d) (p + i * n) (p + i * n + n)
        = Inr (take (nat n) (drop (nat p + nat i * nat n) (samples d)))"
      using rng nn "1.prems" by (simp add: slice_def nat_add_distrib nat_mult_distrib)
    have upt: "[nat i..<nat bound] = nat i # [nat (i + 1)..<nat bound]"
      using True "1.prems"(3) by (simp add: upt_conv_Cons nat_add_distrib)
    have IH: "computeAudioLevels AL n p bound (i + 1)
          (d\<lparr>audioLevels := audioLevels d @ [AL (take (nat n) (drop (nat p + nat i * nat n) (samples d)))]\<rparr>)
        = Inr (d\<lparr>audioLevels := audioLevels d @ [AL (take (nat n) (drop (nat p + nat i * nat n) (samples d)))] @
            map (\<lambda>j. AL (take (nat n) (drop (nat p + j * nat n) (samples d)))) [nat (i + 1)..<nat bound]\<rparr>)"
      using "1.IH" [OF True refl refl sl] "1.prems" by simp
    show ?thesis
      by (subst computeAudioLevels.simps) (simp add: True Let_def sl IH upt)
  qed
qed

lemma cutOff_refl: "cutOff N d vs d vs"
  unfolding cutOff_def by (intro conjI exI [of _ 0] exI [of _ "[]"]) simp_all

lemma cutOff_trans:
  assumes "cutOff N d vs d1 vs1" and "cutOff N d1 vs1 d2 vs2"
  shows "cutOff N d vs d2 vs2"
proof -
  from assms(1) obtain m new where a:
    "c d1 = c d" "m \<le> length (audioLevels d)" "audioLevels d1 = drop m (audioLevels d)"
    "samples d1 = drop (m * N) (samples d)" "vs1 = vs @ new"
    "concat new = take (m * N) (samples d)" "\<forall>s \<in> set new. \<exists>k\<ge>1. length s = k * N"
    unfolding cutOff_def by blast
  from assms(2) obtain m' new' where b:
    "c d2 = c d1" "m' \<le> length (audioLevels d1)" "audioLevels d2 = drop m' (audioLevels d1)"
    "samples d2 = drop (m' * N) (samples d1)" "vs2 = vs1 @ new'"
    "concat new' = take (m' * N) (samples d1)" "\<forall>s \<in> set new'. \<exists>k\<ge>1. length s = k * N"
    unfolding cutOff_def by blast
  have 1: "m + m' \<le> length (audioLevels d)" using a(2,3) b(2) by simp
  have 2: "audioLevels d2 = drop (m + m') (audioLevels d)"
    using a(3) b(3) by (simp add: add.commute)
  have 3: "samples d2 = drop ((m + m') * N) (samples d)"
    using a(4) b(4) by (simp add: add.commute add_mult_distrib)
  have 4: "vs2 = vs @ (new @ new')" using a(5) b(5) by simp
  have 5: "concat (new @ new') = take ((m + m') * N) (samples d)"
    using a(6,4) b(6) by (simp add: take_add add_mult_distrib)
  have 6: "\<forall>s \<in> set (new @ new'). \<exists>k\<ge>1. length s = k * N"
    using a(7) b(7) by auto
  show ?thesis
    unfolding cutOff_def using a(1) b(1) 1 2 3 4 5 6 by metis
qed

lemma cutOff_size:
  assumes "cutOff N d vs d' vs'" and "length (audioLevels d) * N \<le> length (samples d)"
  shows "length (audioLevels d') * N \<le> length (samples d')"
proof -
  from assms(1) obtain m where a: "m \<le> length (audioLevels d)"
    "audioLevels d' = drop m (audioLevels d)" "samples d' = drop (m * N) (samples d)"
    unfolding cutOff_def by blast
  have "(length (audioLevels d) - m) * N \<le> length (samples d) - m * N"
    using assms(2) by (simp add: diff_mult_distrib)
  then show ?thesis using a by simp
qed

lemma lockStep_drop:
  assumes "lockStep AL N d" and "m \<le> length (audioLevels d)"
  shows "lockStep AL N (d\<lparr>audioLevels := drop m (audioLevels d), samples := drop (m * N) (samples d)\<rparr>)"
proof -
  let ?ls = "audioLevels d" and ?ss = "samples d"
  from assms(1) have sz: "length ?ls * N \<le> length ?ss"
    and eq: "?ls = map (\<lambda>i. AL (take N (drop (i * N) ?ss))) [0..<length ?ls]"
    unfolding lockStep_def by auto
  have 1: "length (drop m ?ls) * N \<le> length (drop (m * N) ?ss)"
    using sz by (simp add: diff_mult_distrib)
  have 2: "drop m ?ls = map (\<lambda>i. AL (take N (drop (i * N) (drop (m * N) ?ss)))) [0..<length (drop m ?ls)]"
  proof (rule nth_equalityI)
    show "length (drop m ?ls) = length (map (\<lambda>i. AL (take N (drop (i * N) (drop (m * N) ?ss)))) [0..<length (drop m ?ls)])"
      by simp
  next
    fix i assume i: "i < length (drop m ?ls)"
    then have im: "m + i < length ?ls" by simp
    have "drop m ?ls ! i = ?ls ! (m + i)" using assms(2) by simp
    also have "\<dots> = map (\<lambda>i. AL (take N (drop (i * N) ?ss))) [0..<length ?ls] ! (m + i)"
      using eq by simp
    also have "\<dots> = AL (take N (drop ((m + i) * N) ?ss))"
      using im by simp
    also have "\<dots> = AL (take N (drop (i * N) (drop (m * N) ?ss)))"
      by (simp add: add_mult_distrib add.commute)
    finally show "drop m ?ls ! i = map (\<lambda>i. AL (take N (drop (i * N) (drop (m * N) ?ss)))) [0..<length (drop m ?ls)] ! i"
      using i by simp
  qed
  show ?thesis unfolding lockStep_def using 1 2 by simp
qed

lemma cutOff_lockStep:
  assumes "cutOff N d vs d' vs'" and "lockStep AL N d"
  shows "lockStep AL N d'"
proof -
  from assms(1) obtain m where a: "m \<le> length (audioLevels d)"
    "audioLevels d' = drop m (audioLevels d)" "samples d' = drop (m * N) (samples d)"
    unfolding cutOff_def by blast
  from lockStep_drop [OF assms(2) a(1)] show ?thesis
    using a(2,3) unfolding lockStep_def by simp
qed

lemma processSilencesInTheMiddle_calm:
  "\<not> tooManySilences (c d) sc \<Longrightarrow> processSilencesInTheMiddle d n i sc vs = Inr (vs, d)"
  by (simp add: processSilencesInTheMiddle_def)

lemma processSilencesInTheMiddle_cut:
  assumes "tooManySilences (c d) sc" and "sc \<le> i" and "i - sc \<le> int (length (audioLevels d))"
    and "length (audioLevels d) * N \<le> length (samples d)"
  shows "processSilencesInTheMiddle d (int N) i sc vs =
     Inr (vs @ [take (nat (i - sc) * N) (samples d)],
          d\<lparr>audioLevels := drop (nat (i - sc)) (audioLevels d),
            samples := drop (nat (i - sc) * N) (samples d)\<rparr>)"
proof -
  have "nat (i - sc) * N \<le> length (audioLevels d) * N"
    using assms(2,3) by (intro mult_right_mono) auto
  from order_trans [OF this assms(4)]
  have le: "nat (i - sc) * N \<le> length (samples d)" .
  define e where "e = (i - sc) * int N"
  have e: "nat e = nat (i - sc) * N"
    using assms(2) by (simp add: e_def nat_mult_distrib)
  have nn: "0 \<le> e" using assms(2) by (simp add: e_def)
  have le': "e \<le> int (length (samples d))"
    using le nn e by linarith
  have "processSilencesInTheMiddle d (int N) i sc vs =
     (if e < 0 then Inl MakeLenOutOfRange
         else case slice_to (samples d) e of
           Inl e \<Rightarrow> Inl e
         | Inr seg \<Rightarrow>
            (case slice_from (audioLevels d) (i - sc) of
               Inl e \<Rightarrow> Inl e
             | Inr ls \<Rightarrow>
                (case slice_from (samples d) e of
                   Inl e \<Rightarrow> Inl e
                 | Inr ss \<Rightarrow>
                     Inr (vs @ [seg], d\<lparr>audioLevels := ls, samples := ss\<rparr>))))"
    unfolding processSilencesInTheMiddle_def Let_def e_def using assms(1) by simp
  then show ?thesis
    using assms(2,3) nn le' e
    by (simp add: slice_to_def slice_from_def)
qed

lemma processSilencesInTheMiddle_Inr_any:
  assumes "processSilencesInTheMiddle d (int N) i sc vs = Inr (vs', d')"
    and "sc < i"
    and "length (audioLevels d) * N \<le> length (samples d)"
  shows "cutOff N d vs d' vs'"
proof (cases "tooManySilences (c d) sc")
  case False
  with assms(1) show ?thesis
    by (simp add: processSilencesInTheMiddle_calm cutOff_refl)
next
  case True
  have le: "i - sc \<le> int (length (audioLevels d))"
    using assms(1) True
    by (auto simp: processSilencesInTheMiddle_def Let_def slice_from_def
        split: if_splits sum.splits)
  let ?m = "nat (i - sc)"
  have m1: "1 \<le> ?m" using assms(2) by simp
  have mle: "?m \<le> length (audioLevels d)" using le by simp
  have "?m * N \<le> length (audioLevels d) * N" using mle by (intro mult_right_mono) auto
  from order_trans [OF this assms(3)]
  have sle: "?m * N \<le> length (samples d)" .
  from assms(1) processSilencesInTheMiddle_cut [OF True _ le assms(3), of vs] assms(2)
  have r: "vs' = vs @ [take (?m * N) (samples d)]"
    "d' = d\<lparr>audioLevels := drop ?m (audioLevels d), samples := drop (?m * N) (samples d)\<rparr>"
    by simp_all
  have len: "length (take (?m * N) (samples d)) = ?m * N" using sle by simp
  show ?thesis
    unfolding cutOff_def
  proof (intro conjI exI [of _ ?m] exI [of _ "[take (?m * N) (samples d)]"])
    show "\<forall>s\<in>set [take (?m * N) (samples d)]. \<exists>k\<ge>1. length s = k * N"
      using len m1 by auto
  qed (use r mle in simp_all)
qed

lemma processSilencesInTheMiddle_Inr:
  assumes "processSilencesInTheMiddle d (int N) i sc vs = Inr (vs', d')"
    and "sc < i" and "1 \<le> N"
    and "length (audioLevels d) * N \<le> length (samples d)"
  shows "cutOff N d vs d' vs'"
  using processSilencesInTheMiddle_Inr_any [OF assms(1,2,4)] .

lemma processSilences_cutOff_any:
  assumes "0 \<le> sc" and "sc < i"
    and "0 < sc \<longrightarrow> i \<le> int (length (audioLevels d))"
    and "length (audioLevels d) * N \<le> length (samples d)"
  shows "\<exists>vs' d' i' sc'. processSilences thr (int N) d i sc vs = Inr (vs', d', i', sc')
      \<and> cutOff N d vs d' vs' \<and> 0 \<le> sc' \<and> sc' < i'
      \<and> (0 < sc' \<longrightarrow> i' \<le> int (length (audioLevels d')))"
  using assms
proof (induction thr "int N" d i sc vs rule: processSilences.induct)
  case (1 thr d i sc vs)
  show ?case
  proof (cases "i < int (length (audioLevels d))")
    case False
    then have "processSilences thr (int N) d i sc vs = Inr (vs, d, i, sc)"
      by (subst processSilences.simps) simp
    then show ?thesis
      using "1.prems" cutOff_refl [of N d vs] by simp
  next
    case True
    show ?thesis
    proof (cases "audioLevels d ! nat i < thr")
      case silent: True
      have step: "processSilences thr (int N) d i sc vs
          = processSilences thr (int N) d (i + 1) (sc + 1) vs"
        by (subst processSilences.simps) (simp add: True silent)
      have "\<exists>vs' d' i' sc'. processSilences thr (int N) d (i + 1) (sc + 1) vs = Inr (vs', d', i', sc')
          \<and> cutOff N d vs d' vs' \<and> 0 \<le> sc' \<and> sc' < i'
          \<and> (0 < sc' \<longrightarrow> i' \<le> int (length (audioLevels d')))"
        using "1.prems" True by (intro "1.hyps"(1) [OF True silent]) auto
      then show ?thesis by (simp add: step)
    next
      case loud: False
      have le: "i - sc \<le> int (length (audioLevels d))" using True "1.prems"(1) by simp
      obtain vs1 d1 where p: "processSilencesInTheMiddle d (int N) i sc vs = Inr (vs1, d1)"
      proof (cases "tooManySilences (c d) sc")
        case True
        from processSilencesInTheMiddle_cut [OF True _ le "1.prems"(4), of vs] "1.prems"(2)
        show ?thesis using that by simp
      next
        case False
        then show ?thesis using that by (simp add: processSilencesInTheMiddle_calm)
      qed
      have c1: "cutOff N d vs d1 vs1"
        using processSilencesInTheMiddle_Inr_any [OF p "1.prems"(2,4)] .
      have sz1: "length (audioLevels d1) * N \<le> length (samples d1)"
        using cutOff_size [OF c1 "1.prems"(4)] .
      have step: "processSilences thr (int N) d i sc vs
          = processSilences thr (int N) d1 (i + 1) 0 vs1"
        by (subst processSilences.simps) (simp add: True loud p)
      have "\<exists>vs' d' i' sc'. processSilences thr (int N) d1 (i + 1) 0 vs1 = Inr (vs', d', i', sc')
          \<and> cutOff N d1 vs1 d' vs' \<and> 0 \<le> sc' \<and> sc' < i'
          \<and> (0 < sc' \<longrightarrow> i' \<le> int (length (audioLevels d')))"
        using "1.prems" sz1
        by (intro "1.hyps"(2) [OF True loud p refl]) auto
      then show ?thesis
        using cutOff_trans [OF c1] by (auto simp: step)
    qed
  qed
qed

lemma processSilences_cutOff:
  assumes "1 \<le> N" and "0 \<le> sc" and "sc < i"
    and "0 < sc \<longrightarrow> i \<le> int (length (audioLevels d))"
    and "length (audioLevels d) * N \<le> length (samples d)"
  shows "\<exists>vs' d' i' sc'. processSilences thr (int N) d i sc vs = Inr (vs', d', i', sc')
      \<and> cutOff N d vs d' vs' \<and> 0 \<le> sc' \<and> sc' < i'
      \<and> (0 < sc' \<longrightarrow> i' \<le> int (length (audioLevels d')))"
  using processSilences_cutOff_any [OF assms(2-5)] .

lemma countSilencesAtStart_bounds:
  "0 \<le> countSilencesAtStart thr ls \<and> countSilencesAtStart thr ls \<le> int (length ls)"
  by (induction ls) auto

lemma countSilencesAtStart_silent:
  "int j < countSilencesAtStart thr ls \<Longrightarrow> ls ! j < thr"
proof (induction ls arbitrary: j)
  case Nil
  then show ?case by simp
next
  case (Cons l ls)
  then show ?case by (cases j) (auto split: if_splits)
qed

lemma countSilencesAtStart_loud:
  "countSilencesAtStart thr ls < int (length ls)
    \<Longrightarrow> \<not> ls ! nat (countSilencesAtStart thr ls) < thr"
proof (induction ls)
  case Nil
  then show ?case by simp
next
  case (Cons l ls)
  show ?case
  proof (cases "l < thr")
    case False
    then show ?thesis by simp
  next
    case True
    have nn: "0 \<le> countSilencesAtStart thr ls"
      using countSilencesAtStart_bounds [of thr ls] by simp
    then have "nat (1 + countSilencesAtStart thr ls) = Suc (nat (countSilencesAtStart thr ls))"
      by simp
    then show ?thesis using True Cons by simp
  qed
qed

lemma newLevels_size:
  assumes "1 \<le> N" and "length (audioLevels d) * N \<le> length (samples d @ smpls)"
  shows "length (audioLevels (newLevels AL N d smpls)) * N
      \<le> length (samples (newLevels AL N d smpls))"
proof -
  let ?a = "length (samples d @ smpls)" and ?b = "length (audioLevels d) * N"
  have "(?a - ?b) div N * N \<le> ?a - ?b" by simp
  then have "?b + (?a - ?b) div N * N \<le> ?a" using assms(2) by linarith
  then show ?thesis by (simp add: newLevels_def add_mult_distrib)
qed

lemma computeAudioLevels_newLevels:
  assumes "1 \<le> N" and "length (audioLevels d) * N \<le> length (samples d @ smpls)"
  shows "computeAudioLevels AL (int N) (int (length (audioLevels d)) * int N)
           ((int (length (samples d @ smpls)) - int (length (audioLevels d)) * int N) div int N) 0
           (d\<lparr>samples := samples d @ smpls\<rparr>)
         = Inr (newLevels AL N d smpls)"
proof -
  let ?a = "length (samples d @ smpls)" and ?b = "length (audioLevels d) * N"
  let ?d = "d\<lparr>samples := samples d @ smpls\<rparr>"
  let ?p = "int (length (audioLevels d)) * int N"
  let ?q = "(int ?a - ?p) div int N"
  have p: "nat ?p = ?b" by (simp add: nat_mult_distrib)
  have q': "?q = int ((?a - ?b) div N)"
    using assms(2) by (simp add: of_nat_diff zdiv_int)
  then have q: "nat ?q = (?a - ?b) div N" by simp
  have "(?a - ?b) div N * N \<le> ?a - ?b" by simp
  then have "?b + (?a - ?b) div N * N \<le> ?a" using assms(2) by linarith
  then have "int ?b + int ((?a - ?b) div N) * int N \<le> int ?a"
    by (simp only: flip: of_nat_mult of_nat_add)
  then have r: "?p + ?q * int N \<le> int (length (samples ?d))"
    unfolding q' by simp
  have "computeAudioLevels AL (int N) ?p ?q 0 ?d
      = Inr (?d\<lparr>audioLevels := audioLevels ?d @
            map (\<lambda>j. AL (take (nat (int N)) (drop (nat ?p + j * nat (int N)) (samples ?d))))
              [nat 0..<nat ?q]\<rparr>)"
    by (rule computeAudioLevels_eq) (use r in simp_all)
  then show ?thesis
    unfolding p q by (simp add: newLevels_def)
qed

lemma keepOneSilenceAtStart_pruneStart:
  assumes "length (audioLevels d) * N \<le> length (samples d)"
  shows "keepOneSilenceAtStart d (int N) (countSilencesAtStart thr (audioLevels d))
      = Inr (pruneStart thr N d)"
proof -
  let ?k = "countSilencesAtStart thr (audioLevels d)"
  have b: "0 \<le> ?k" "?k \<le> int (length (audioLevels d))"
    using countSilencesAtStart_bounds [of thr "audioLevels d"] by simp_all
  show ?thesis
  proof (cases "1 < ?k")
    case False
    then have "nat (?k - 1) = 0" by simp
    then show ?thesis using False by (simp add: keepOneSilenceAtStart_def pruneStart_def)
  next
    case True
    define e where "e = (?k - 1) * int N"
    have "nat (?k - 1) * N \<le> length (audioLevels d) * N"
      using b by (intro mult_right_mono) auto
    from order_trans [OF this assms]
    have le: "nat (?k - 1) * N \<le> length (samples d)" .
    have e: "nat e = nat (?k - 1) * N" using True by (simp add: e_def nat_mult_distrib)
    have nn: "0 \<le> e" using True by (simp add: e_def)
    have le': "e \<le> int (length (samples d))" using le nn e by linarith
    have "keepOneSilenceAtStart d (int N) ?k =
        (case slice_from (audioLevels d) (?k - 1) of
           Inl e \<Rightarrow> Inl e
         | Inr ls \<Rightarrow>
            (case slice_from (samples d) e of
               Inl e \<Rightarrow> Inl e
             | Inr ss \<Rightarrow> Inr (d\<lparr>audioLevels := ls, samples := ss\<rparr>)))"
      unfolding keepOneSilenceAtStart_def e_def using True by simp
    then show ?thesis
      using True b nn le' e by (simp add: slice_from_def pruneStart_def)
  qed
qed

lemma pruneStart_cut:
  "\<exists>m \<le> length (audioLevels d).
     pruneStart thr N d = d\<lparr>audioLevels := drop m (audioLevels d), samples := drop (m * N) (samples d)\<rparr>"
proof -
  have "nat (countSilencesAtStart thr (audioLevels d) - 1) \<le> length (audioLevels d)"
    using countSilencesAtStart_bounds [of thr "audioLevels d"] by linarith
  then show ?thesis unfolding pruneStart_def by blast
qed

lemma pruneStart_size:
  assumes "length (audioLevels d) * N \<le> length (samples d)"
  shows "length (audioLevels (pruneStart thr N d)) * N \<le> length (samples (pruneStart thr N d))"
proof -
  obtain m where m: "m \<le> length (audioLevels d)"
    "pruneStart thr N d = d\<lparr>audioLevels := drop m (audioLevels d), samples := drop (m * N) (samples d)\<rparr>"
    using pruneStart_cut by blast
  have "(length (audioLevels d) - m) * N \<le> length (samples d) - m * N"
    using assms by (simp add: diff_mult_distrib)
  then show ?thesis using m by simp
qed

text \<open>What \<open>Add\<close> does once there are enough samples for a window.\<close>

lemma Add_enough:
  assumes "1 \<le> N"
    and "length (audioLevels d) * N + N \<le> length (samples d @ smpls)"
  shows "Add AL d smpls (int N) thr =
     (let d2 = pruneStart thr N (newLevels AL N d smpls) in
      if length (audioLevels d2) \<le> 1 then Inr ([], d2)
      else (case processSilences thr (int N) d2 1 0 [] of
              Inl e \<Rightarrow> Inl e
            | Inr (vs, d3, i, sc) \<Rightarrow> processSilencesInTheMiddle d3 (int N) i sc vs))"
proof -
  have le: "length (audioLevels d) * N \<le> length (samples d @ smpls)"
    using assms(2) by simp
  have g: "\<not> int (length (samples d) + length smpls) - int (length (audioLevels d)) * int N < int N"
    using assms(2) by (simp flip: of_nat_mult of_nat_add) 
  have n0: "levelsToCompute q (int N) = q div int N" for q
    using assms(1) by (simp add: levelsToCompute_def)
  note cl = computeAudioLevels_newLevels [OF assms(1) le, of AL]
  note kp = keepOneSilenceAtStart_pruneStart [OF newLevels_size [OF assms(1) le, of AL], of thr]
  show ?thesis
    unfolding Add_def Let_def using g n0 cl kp
    by (simp split: sum.splits prod.splits)
qed

lemma c_newLevels [simp]: "c (newLevels AL N d smpls) = c d"
  by (simp add: newLevels_def)

lemma c_pruneStart [simp]: "c (pruneStart thr N d) = c d"
  by (simp add: pruneStart_def)

lemma cutOff_c: "cutOff N d vs d' vs' \<Longrightarrow> c d' = c d"
  by (simp add: cutOff_def)

lemma less_add_diff: "(a::nat) < x + n \<Longrightarrow> 0 < n \<Longrightarrow> a - x < n"
  by arith

lemma newLevels_not_enough:
  assumes "length (samples d @ smpls) < length (audioLevels d) * N + N" and "1 \<le> N"
  shows "newLevels AL N d smpls = d\<lparr>samples := samples d @ smpls\<rparr>"
proof -
  have "length (samples d @ smpls) - length (audioLevels d) * N < N"
    using assms by (intro less_add_diff) auto
  then have "(length (samples d @ smpls) - length (audioLevels d) * N) div N = 0"
    by simp
  then show ?thesis by (simp add: newLevels_def)
qed

lemma Add_Inr_cutOff:
  assumes "1 \<le> N"
    and "length (audioLevels d) * N + N \<le> length (samples d @ smpls)"
    and "Add AL d smpls (int N) thr = Inr (vs, d')"
  shows "cutOff N (pruneStart thr N (newLevels AL N d smpls)) [] d' vs"
proof -
  let ?d2 = "pruneStart thr N (newLevels AL N d smpls)"
  have le: "length (audioLevels d) * N \<le> length (samples d @ smpls)"
    using assms(2) by simp
  have sz: "length (audioLevels ?d2) * N \<le> length (samples ?d2)"
    by (intro pruneStart_size newLevels_size assms(1) le)
  note A = Add_enough [OF assms(1,2), of AL thr]
  show ?thesis
  proof (cases "length (audioLevels ?d2) \<le> 1")
    case True
    with A assms(3) show ?thesis by (simp add: Let_def cutOff_refl)
  next
    case False
    obtain vs3 d3 i3 sc3 where
      l: "processSilences thr (int N) ?d2 1 0 [] = Inr (vs3, d3, i3, sc3)"
      and c3: "cutOff N ?d2 [] d3 vs3" and sc: "sc3 < i3"
      using processSilences_cutOff [OF assms(1) _ _ _ sz, of 0 1 thr "[]"] by auto
    have f: "processSilencesInTheMiddle d3 (int N) i3 sc3 vs3 = Inr (vs, d')"
      using A assms(3) False l by (simp add: Let_def)
    have "cutOff N d3 vs3 d' vs"
      using processSilencesInTheMiddle_Inr [OF f sc assms(1) cutOff_size [OF c3 sz]] .
    with c3 show ?thesis by (rule cutOff_trans)
  qed
qed

lemma Add_returns:
  assumes "1 \<le> N" and "\<not> tooManySilences (c d) 0"
  shows "\<exists>vs d'. Add AL d smpls (int N) thr = Inr (vs, d')"
proof (cases "length (audioLevels d) * N + N \<le> length (samples d @ smpls)")
  case False
  then have "int (length (samples d) + length smpls) - int (length (audioLevels d)) * int N < int N"
    by (simp flip: of_nat_mult of_nat_add)
  then show ?thesis by (simp add: Add_not_enough)
next
  case True
  let ?d2 = "pruneStart thr N (newLevels AL N d smpls)"
  have le: "length (audioLevels d) * N \<le> length (samples d @ smpls)"
    using True by simp
  have sz: "length (audioLevels ?d2) * N \<le> length (samples ?d2)"
    by (intro pruneStart_size newLevels_size assms(1) le)
  note A = Add_enough [OF assms(1) True, of AL thr]
  show ?thesis
  proof (cases "length (audioLevels ?d2) \<le> 1")
    case True
    with A show ?thesis by (simp add: Let_def)
  next
    case False
    obtain vs3 d3 i3 sc3 where
      l: "processSilences thr (int N) ?d2 1 0 [] = Inr (vs3, d3, i3, sc3)"
      and c3: "cutOff N ?d2 [] d3 vs3" and sc: "0 \<le> sc3" "sc3 < i3"
      and i3: "0 < sc3 \<longrightarrow> i3 \<le> int (length (audioLevels d3))"
      using processSilences_cutOff [OF assms(1) _ _ _ sz, of 0 1 thr "[]"] by auto
    have cd: "c d3 = c d" using cutOff_c [OF c3] by simp
    have "\<exists>r. processSilencesInTheMiddle d3 (int N) i3 sc3 vs3 = Inr r"
    proof (cases "tooManySilences (c d3) sc3")
      case False
      then show ?thesis by (simp add: processSilencesInTheMiddle_calm)
    next
      case True
      then have "sc3 \<noteq> 0" using assms(2) cd by auto
      then have "i3 - sc3 \<le> int (length (audioLevels d3))" using sc i3 by simp
      from processSilencesInTheMiddle_cut [OF True _ this cutOff_size [OF c3 sz], of vs3] sc
      show ?thesis by simp
    qed
    then show ?thesis using A False l by (auto simp: Let_def)
  qed
qed

lemma lockStep_newLevels:
  assumes "lockStep AL N d" and "1 \<le> N"
  shows "lockStep AL N (newLevels AL N d smpls)"
proof -
  define S where "S = samples d @ smpls"
  let ?ls = "audioLevels d" and ?ss = "samples d"
  let ?b = "(length S - length ?ls * N) div N"
  let ?new = "map (\<lambda>j. AL (take N (drop (length ?ls * N + j * N) S))) [0..<?b]"
  from assms(1) have sz: "length ?ls * N \<le> length ?ss"
    and eq: "?ls = map (\<lambda>i. AL (take N (drop (i * N) ?ss))) [0..<length ?ls]"
    unfolding lockStep_def by auto
  have le: "length ?ls * N \<le> length (samples d @ smpls)" using sz by simp
  have nl: "newLevels AL N d smpls = d\<lparr>audioLevels := ?ls @ ?new, samples := S\<rparr>"
    by (simp add: newLevels_def S_def)
  have 1: "length (?ls @ ?new) * N \<le> length S"
    using newLevels_size [OF assms(2) le, of AL] unfolding nl by simp
  have 2: "?ls @ ?new = map (\<lambda>i. AL (take N (drop (i * N) S))) [0..<length (?ls @ ?new)]"
  proof (rule nth_equalityI)
    show "length (?ls @ ?new) = length (map (\<lambda>i. AL (take N (drop (i * N) S))) [0..<length (?ls @ ?new)])"
      by simp
  next
    fix i assume i: "i < length (?ls @ ?new)"
    show "(?ls @ ?new) ! i = map (\<lambda>i. AL (take N (drop (i * N) S))) [0..<length (?ls @ ?new)] ! i"
    proof (cases "i < length ?ls")
      case True
      have "(i + 1) * N \<le> length ?ls * N" using True by (intro mult_right_mono) auto
      from order_trans [OF this sz] have iN: "i * N + N \<le> length ?ss" by simp
      have "?ls ! i = map (\<lambda>i. AL (take N (drop (i * N) ?ss))) [0..<length ?ls] ! i"
        using eq by simp
      also have "\<dots> = AL (take N (drop (i * N) ?ss))" using True by simp
      also have "take N (drop (i * N) ?ss) = take N (drop (i * N) S)"
        using iN by (simp add: S_def)
      finally show ?thesis using True i by (simp add: nth_append)
    next
      case False
      then have e: "length ?ls * N + (i - length ?ls) * N = i * N"
        by (simp add: diff_mult_distrib)
      have j: "i - length ?ls < ?b" using False i by simp
      have "(?ls @ ?new) ! i = ?new ! (i - length ?ls)"
        using False by (simp add: nth_append)
      also have "\<dots> = AL (take N (drop (length ?ls * N + (i - length ?ls) * N) S))"
        using j by simp
      finally show ?thesis using i e by simp
    qed
  qed
  show ?thesis unfolding lockStep_def nl using 1 2 by simp
qed

lemma lockStep_pruneStart:
  assumes "lockStep AL N d"
  shows "lockStep AL N (pruneStart thr N d)"
proof -
  obtain m where m: "m \<le> length (audioLevels d)"
    "pruneStart thr N d = d\<lparr>audioLevels := drop m (audioLevels d), samples := drop (m * N) (samples d)\<rparr>"
    using pruneStart_cut by blast
  show ?thesis using lockStep_drop [OF assms m(1)] m(2) by simp
qed

lemma Add_lockStep:
  assumes "lockStep AL N d" and "1 \<le> N" and "Add AL d smpls (int N) thr = Inr (vs, d')"
  shows "lockStep AL N d'"
proof (cases "length (audioLevels d) * N + N \<le> length (samples d @ smpls)")
  case False
  then have "int (length (samples d) + length smpls) - int (length (audioLevels d)) * int N < int N"
    by (simp flip: of_nat_mult of_nat_add)
  then have "d' = d\<lparr>samples := samples d @ smpls\<rparr>"
    using assms(3) by (simp add: Add_not_enough)
  also have "\<dots> = newLevels AL N d smpls"
    using False assms(2) by (simp add: newLevels_not_enough)
  finally show ?thesis using lockStep_newLevels [OF assms(1,2)] by simp
next
  case True
  have "lockStep AL N (pruneStart thr N (newLevels AL N d smpls))"
    by (intro lockStep_pruneStart lockStep_newLevels assms(1,2))
  with Add_Inr_cutOff [OF assms(2) True assms(3)] show ?thesis
    by (rule cutOff_lockStep)
qed

lemma tooManySilences_0: "tooManySilences cfg 0 \<longleftrightarrow> sint (SilenceMinDuration cfg) \<le> 0"
  by (simp add: tooManySilences_def)

lemma Add_c:
  assumes "1 \<le> N" and "Add AL d smpls (int N) thr = Inr (vs, d')"
  shows "c d' = c d"
proof (cases "length (audioLevels d) * N + N \<le> length (samples d @ smpls)")
  case False
  then have "int (length (samples d) + length smpls) - int (length (audioLevels d)) * int N < int N"
    by (simp flip: of_nat_mult of_nat_add)
  then show ?thesis using assms(2) by (auto simp: Add_not_enough)
next
  case True
  from cutOff_c [OF Add_Inr_cutOff [OF assms(1) True assms(2)]] show ?thesis by simp
qed

lemma AddAll_lockStep:
  "lockStep AL N d \<Longrightarrow> 1 \<le> N \<Longrightarrow> AddAll AL d calls (int N) = Inr (outs, d')
    \<Longrightarrow> lockStep AL N d'"
proof (induction calls arbitrary: d outs)
  case Nil
  then show ?case by simp
next
  case (Cons call calls)
  obtain smpls thr where call: "call = (smpls, thr)" by (cases call)
  from Cons.prems(3) obtain vs d1 outs1 where
    a: "Add AL d smpls (int N) thr = Inr (vs, d1)"
    and r: "AddAll AL d1 calls (int N) = Inr (outs1, d')"
    by (auto simp: call split: sum.splits prod.splits)
  from Add_lockStep [OF Cons.prems(1,2) a] have "lockStep AL N d1" .
  from Cons.IH [OF this Cons.prems(2) r] show ?case .
qed

lemma AddAll_returns:
  "1 \<le> N \<Longrightarrow> \<not> tooManySilences (c d) 0 \<Longrightarrow> \<exists>r. AddAll AL d calls (int N) = Inr r"
proof (induction calls arbitrary: d)
  case Nil
  then show ?case by simp
next
  case (Cons call calls)
  obtain smpls thr where call: "call = (smpls, thr)" by (cases call)
  obtain vs d1 where a: "Add AL d smpls (int N) thr = Inr (vs, d1)"
    using Add_returns [OF Cons.prems] by blast
  have "c d1 = c d" using Add_c [OF Cons.prems(1) a] .
  with Cons.prems(2) have "\<not> tooManySilences (c d1) 0" by simp
  from Cons.IH [OF Cons.prems(1) this] obtain r where "AddAll AL d1 calls (int N) = Inr r"
    by blast
  then show ?case by (cases r) (simp add: call a)
qed

lemma lockStep_nth:
  "lockStep AL N d \<longleftrightarrow>
     length (audioLevels d) * N \<le> length (samples d)
     \<and> (\<forall>i<length (audioLevels d). audioLevels d ! i = AL (take N (drop (i * N) (samples d))))"
proof -
  let ?f = "\<lambda>i. AL (take N (drop (i * N) (samples d)))"
  have "audioLevels d = map ?f [0..<length (audioLevels d)]
    \<longleftrightarrow> (\<forall>i<length (audioLevels d). audioLevels d ! i = ?f i)"
  proof
    assume eq: "audioLevels d = map ?f [0..<length (audioLevels d)]"
    show "\<forall>i<length (audioLevels d). audioLevels d ! i = ?f i"
    proof (intro allI impI)
      fix i assume i: "i < length (audioLevels d)"
      have "audioLevels d ! i = map ?f [0..<length (audioLevels d)] ! i"
        using eq by simp
      also have "\<dots> = ?f i" using i by simp
      finally show "audioLevels d ! i = ?f i" .
    qed
  next
    assume "\<forall>i<length (audioLevels d). audioLevels d ! i = ?f i"
    then show "audioLevels d = map ?f [0..<length (audioLevels d)]"
      by (intro nth_equalityI) simp_all
  qed
  then show ?thesis by (simp add: lockStep_def)
qed

lemma lockStep_Reset: "lockStep AL N (Reset d)"
  by (simp add: lockStep_def Reset_def)

lemma cutOff_segments:
  assumes "cutOff N d [] d' vs" and "1 \<le> N"
  shows "\<forall>s\<in>set vs. s \<noteq> [] \<and> (\<exists>k\<ge>1. length s = k * N)"
proof -
  from assms(1) have "\<forall>s\<in>set vs. \<exists>k\<ge>1. length s = k * N"
    unfolding cutOff_def by auto
  moreover have "s \<noteq> []" if "length s = k * N" "1 \<le> k" for s :: "32 word list" and k
  proof -
    have "0 < k * N" using that(2) assms(2) by simp
    with that(1) show ?thesis by auto
  qed
  ultimately show ?thesis by blast
qed

lemma enough_int:
  "1 \<le> N \<Longrightarrow> \<not> int (length (samples d @ smpls)) - int (length (audioLevels d)) * int N < int N
    \<longleftrightarrow> length (audioLevels d) * N + N \<le> length (samples d @ smpls)"
proof -
  have "int (length (samples d @ smpls)) - int (length (audioLevels d)) * int N < int N
    \<longleftrightarrow> int (length (samples d @ smpls)) < int (length (audioLevels d) * N + N)"
    by (simp only: of_nat_mult of_nat_add) linarith
  then show ?thesis by (simp only: of_nat_less_iff) linarith
qed

lemma cutOff_samples:
  assumes "cutOff N d [] d' vs" and "length (audioLevels d) * N \<le> length (samples d)"
  shows "concat vs @ samples d' = samples d
    \<and> (\<exists>m. length (concat vs) = m * N \<and> audioLevels d' = drop m (audioLevels d))"
proof -
  from assms(1) obtain m where m: "m \<le> length (audioLevels d)"
    "audioLevels d' = drop m (audioLevels d)" "samples d' = drop (m * N) (samples d)"
    "concat vs = take (m * N) (samples d)"
    unfolding cutOff_def by auto
  have "m * N \<le> length (audioLevels d) * N" using m(1) by (intro mult_right_mono) auto
  from order_trans [OF this assms(2)] have "length (concat vs) = m * N"
    using m(4) by simp
  then show ?thesis using m by auto
qed

lemma processSilencesInTheMiddle_negative:
  assumes "n < 0" and "sc < i"
  shows "processSilencesInTheMiddle d n i sc vs = Inl MakeLenOutOfRange
    \<or> processSilencesInTheMiddle d n i sc vs = Inr (vs, d)"
proof -
  have "(i - sc) * n < 0" using assms by (simp add: mult_pos_neg)
  then show ?thesis by (simp add: processSilencesInTheMiddle_def Let_def)
qed

lemma processSilences_negative:
  assumes "n < 0" and "sc < i" and "0 \<le> sc"
  shows "processSilences thr n d i sc vs = Inl MakeLenOutOfRange
    \<or> (\<exists>i' sc'. processSilences thr n d i sc vs = Inr (vs, d, i', sc') \<and> sc' < i')"
  using assms
proof (induction thr n d i sc vs rule: processSilences.induct)
  case (1 thr n d i sc vs)
  show ?case
  proof (cases "i < int (length (audioLevels d))")
    case False
    then have "processSilences thr n d i sc vs = Inr (vs, d, i, sc)"
      by (subst processSilences.simps) simp
    then show ?thesis using "1.prems" by simp
  next
    case True
    show ?thesis
    proof (cases "audioLevels d ! nat i < thr")
      case silent: True
      have step: "processSilences thr n d i sc vs = processSilences thr n d (i + 1) (sc + 1) vs"
        by (subst processSilences.simps) (simp add: True silent)
      show ?thesis unfolding step
        using "1.prems" by (intro "1.IH"(1) [OF True silent]) auto
    next
      case loud: False
      from processSilencesInTheMiddle_negative [OF "1.prems"(1,2), of d vs]
      show ?thesis
      proof
        assume p: "processSilencesInTheMiddle d n i sc vs = Inl MakeLenOutOfRange"
        have "processSilences thr n d i sc vs = Inl MakeLenOutOfRange"
          by (subst processSilences.simps) (simp add: True loud p)
        then show ?thesis by simp
      next
        assume p: "processSilencesInTheMiddle d n i sc vs = Inr (vs, d)"
        have step: "processSilences thr n d i sc vs = processSilences thr n d (i + 1) 0 vs"
          by (subst processSilences.simps) (simp add: True loud p)
        have "0 \<le> i" using "1.prems" by simp
        show ?thesis unfolding step
          using "1.prems" \<open>0 \<le> i\<close> by (intro "1.IH"(2) [OF True loud p refl]) auto
      qed
    qed
  qed
qed

lemma computeAudioLevels_none:
  "bound \<le> 0 \<Longrightarrow> computeAudioLevels AL n p bound 0 d = Inr d"
  by (subst computeAudioLevels.simps) simp

lemma Add_negative:
  assumes "n < 0"
  shows "Add AL d smpls n thr =
     (if 1 < countSilencesAtStart thr (audioLevels d) then Inl SliceBoundsOutOfRange
      else if length (audioLevels d) \<le> 1 then Inr ([], d\<lparr>samples := samples d @ smpls\<rparr>)
      else (case processSilences thr n (d\<lparr>samples := samples d @ smpls\<rparr>) 1 0 [] of
              Inl e \<Rightarrow> Inl e
            | Inr (vs, d3, i, sc) \<Rightarrow> processSilencesInTheMiddle d3 n i sc vs))"
proof -
  let ?d = "d\<lparr>samples := samples d @ smpls\<rparr>"
  let ?k = "countSilencesAtStart thr (audioLevels d)"
  define q where "q = int (length (samples d) + length smpls) - int (length (audioLevels d)) * n"
  have "int (length (audioLevels d)) * n \<le> 0"
    using assms by (simp add: mult_nonneg_nonpos)
  then have q0: "0 \<le> q" unfolding q_def by linarith
  then have g: "\<not> q < n" using assms by simp
  have b: "q div n \<le> 0" using q0 assms by (simp add: div_nonneg_neg_le0)
  have cl: "computeAudioLevels AL n (int (length (audioLevels d)) * n) (q div n) 0 ?d = Inr ?d"
    by (rule computeAudioLevels_none [OF b])
  have kb: "0 \<le> ?k" "?k \<le> int (length (audioLevels d))"
    using countSilencesAtStart_bounds [of thr "audioLevels d"] by simp_all
  have kp: "keepOneSilenceAtStart ?d n ?k =
      (if 1 < ?k then Inl SliceBoundsOutOfRange else Inr ?d)"
  proof (cases "1 < ?k")
    case False
    then show ?thesis by (simp add: keepOneSilenceAtStart_def)
  next
    case True
    then have "(?k - 1) * n < 0" using assms by (simp add: mult_pos_neg)
    then have "slice_from (samples d @ smpls) ((?k - 1) * n) = Inl SliceBoundsOutOfRange"
      by (simp add: slice_from_def)
    then show ?thesis using True kb
      by (simp add: keepOneSilenceAtStart_def slice_from_def)
  qed
  have "Add AL d smpls n thr =
      (case keepOneSilenceAtStart ?d n ?k of
         Inl e \<Rightarrow> Inl e
       | Inr d2 \<Rightarrow>
           if int (length (audioLevels d2)) \<le> 1 then Inr ([], d2)
           else (case processSilences thr n d2 1 0 [] of
                   Inl e \<Rightarrow> Inl e
                 | Inr (vs, d3, i, sc) \<Rightarrow> processSilencesInTheMiddle d3 n i sc vs))"
    unfolding Add_def Let_def using g assms cl
    by (simp add: q_def levelsToCompute_def split: sum.splits prod.splits)
  then show ?thesis by (simp add: kp)
qed

lemma Add_conserves:
  assumes "1 \<le> N" and "Add AL d smpls (int N) thr = Inr (vs, d')"
  shows "samples d @ smpls = prunedAtStart AL d smpls (int N) thr @ concat vs @ samples d'"
proof (cases "length (audioLevels d) * N + N \<le> length (samples d @ smpls)")
  case False
  then have g: "int (length (samples d @ smpls)) - int (length (audioLevels d)) * int N < int N"
    using enough_int [OF assms(1), of d smpls] by simp
  then have "vs = []" "d' = d\<lparr>samples := samples d @ smpls\<rparr>"
    using assms(2) by (simp_all add: Add_not_enough)
  then show ?thesis using g by (simp add: prunedAtStart_def)
next
  case True
  then have g: "\<not> int (length (samples d @ smpls)) - int (length (audioLevels d)) * int N < int N"
    using enough_int [OF assms(1), of d smpls] by simp
  have le: "length (audioLevels d) * N \<le> length (samples d @ smpls)" using True by simp
  let ?d1 = "newLevels AL N d smpls"
  let ?K = "nat (countSilencesAtStart thr (audioLevels ?d1) - 1)"
  have sz2: "length (audioLevels (pruneStart thr N ?d1)) * N \<le> length (samples (pruneStart thr N ?d1))"
    by (intro pruneStart_size newLevels_size assms(1) le)
  define S where "S = samples d @ smpls"
  from cutOff_samples [OF Add_Inr_cutOff [OF assms(1) True assms(2)] sz2]
  have "concat vs @ samples d' = samples (pruneStart thr N ?d1)" by simp
  also have "\<dots> = drop (?K * N) S"
    by (simp add: pruneStart_def newLevels_def S_def)
  finally have "take (?K * N) S @ concat vs @ samples d' = S"
    by simp
  moreover have "prunedAtStart AL d smpls (int N) thr = take (?K * N) S"
    using g by (simp add: prunedAtStart_def S_def)
  ultimately show ?thesis by (simp add: S_def)
qed

lemma prunedAtStart_silent:
  assumes "lockStep AL N d" and "1 \<le> N"
  shows "\<exists>k. length (prunedAtStart AL d smpls (int N) thr) = k * N
    \<and> (\<forall>j<k. AL (take N (drop (j * N) (prunedAtStart AL d smpls (int N) thr))) < thr)"
proof (cases "int (length (samples d @ smpls)) - int (length (audioLevels d)) * int N < int N")
  case True
  then have "prunedAtStart AL d smpls (int N) thr = []" by (simp add: prunedAtStart_def)
  then show ?thesis by (intro exI [of _ 0]) simp
next
  case False
  define d1 where "d1 = newLevels AL N d smpls"
  define S where "S = samples d @ smpls"
  define K where "K = nat (countSilencesAtStart thr (audioLevels d1) - 1)"
  have l1: "lockStep AL N d1" unfolding d1_def by (rule lockStep_newLevels [OF assms])
  have s1: "samples d1 = S" by (simp add: d1_def S_def newLevels_def)
  have pr: "prunedAtStart AL d smpls (int N) thr = take (K * N) S"
    using False by (simp add: prunedAtStart_def K_def d1_def S_def)
  have Kle: "K \<le> length (audioLevels d1)"
    using countSilencesAtStart_bounds [of thr "audioLevels d1"] unfolding K_def by linarith
  have sz: "length (audioLevels d1) * N \<le> length S"
    using l1 s1 by (simp add: lockStep_def)
  have "K * N \<le> length (audioLevels d1) * N" using Kle by (intro mult_right_mono) auto
  from order_trans [OF this sz] have KN: "K * N \<le> length S" .
  have len: "length (take (K * N) S) = K * N" using KN by simp
  have sil: "AL (take N (drop (j * N) (take (K * N) S))) < thr" if j: "j < K" for j
  proof -
    have "(j + 1) * N \<le> K * N" using j by (intro mult_right_mono) auto
    then have "j * N + N \<le> K * N" by simp
    then have "take N (drop (j * N) (take (K * N) S)) = take N (drop (j * N) S)"
      by (simp add: drop_take min_def)
    moreover have "audioLevels d1 ! j = AL (take N (drop (j * N) S))"
      using l1 j Kle s1 by (simp add: lockStep_nth)
    moreover have "audioLevels d1 ! j < thr"
      using j unfolding K_def by (intro countSilencesAtStart_silent) linarith
    ultimately show ?thesis by simp
  qed
  show ?thesis unfolding pr using len sil by blast
qed

lemma AddAll_conserves:
  "1 \<le> N \<Longrightarrow> AddAll AL d calls (int N) = Inr (outs, d')
    \<Longrightarrow> samples d @ concat (map fst calls)
        = concat (map (\<lambda>(pruned, vs). pruned @ concat vs) outs) @ samples d'"
proof (induction calls arbitrary: d outs)
  case Nil
  then show ?case by simp
next
  case (Cons call calls)
  obtain smpls thr where call: "call = (smpls, thr)" by (cases call)
  from Cons.prems(2) obtain vs d1 outs1 where
    a: "Add AL d smpls (int N) thr = Inr (vs, d1)"
    and r: "AddAll AL d1 calls (int N) = Inr (outs1, d')"
    and o: "outs = (prunedAtStart AL d smpls (int N) thr, vs) # outs1"
    by (auto simp: call split: sum.splits prod.splits)
  have "samples d @ concat (map fst (call # calls))
      = (samples d @ smpls) @ concat (map fst calls)" by (simp add: call)
  also have "\<dots> = prunedAtStart AL d smpls (int N) thr @ concat vs
      @ (samples d1 @ concat (map fst calls))"
    using Add_conserves [OF Cons.prems(1) a] by simp
  also have "samples d1 @ concat (map fst calls)
      = concat (map (\<lambda>(pruned, vs). pruned @ concat vs) outs1) @ samples d'"
    by (rule Cons.IH [OF Cons.prems(1) r])
  finally show ?case by (simp add: o)
qed

lemma AddAll_pruned_silent:
  "lockStep AL N d \<Longrightarrow> 1 \<le> N \<Longrightarrow> AddAll AL d calls (int N) = Inr (outs, d')
    \<Longrightarrow> list_all2 (\<lambda>(smpls, thr) (pruned, vs).
          \<exists>k. length pruned = k * N \<and> (\<forall>j<k. AL (take N (drop (j * N) pruned)) < thr))
        calls outs"
proof (induction calls arbitrary: d outs)
  case Nil
  then show ?case by simp
next
  case (Cons call calls)
  obtain smpls thr where call: "call = (smpls, thr)" by (cases call)
  from Cons.prems(3) obtain vs d1 outs1 where
    a: "Add AL d smpls (int N) thr = Inr (vs, d1)"
    and r: "AddAll AL d1 calls (int N) = Inr (outs1, d')"
    and o: "outs = (prunedAtStart AL d smpls (int N) thr, vs) # outs1"
    by (auto simp: call split: sum.splits prod.splits)
  have l1: "lockStep AL N d1" by (rule Add_lockStep [OF Cons.prems(1,2) a])
  show ?case
    using prunedAtStart_silent [OF Cons.prems(1,2), of smpls thr] Cons.IH [OF l1 Cons.prems(2) r]
    by (simp add: o call)
qed

lemma tooManySilences_scenario:
  "tooManySilences \<lparr>SilenceMinDuration = 90 * Millisecond, StepDuration = 30 * Millisecond\<rparr> 3"
  "\<not> tooManySilences \<lparr>SilenceMinDuration = 90 * Millisecond, StepDuration = 30 * Millisecond\<rparr> 0"
  by code_simp+

lemma sint_word_of_int_mult:
  fixes w :: "64 word"
  assumes "- (2 ^ 63) \<le> r * sint w" and "r * sint w < 2 ^ 63"
  shows "sint (word_of_int r * w) = r * sint w"
proof -
  have w: "signed_take_bit 63 (sint w) = sint w"
    using sint_ge [of w] sint_lt [of w] by (intro signed_take_bit_int_eq_self) simp_all
  have "sint (word_of_int r * w) = signed_take_bit 63 (signed_take_bit 63 r * sint w)"
    by (simp add: sint_word_mult sint_sbintrunc')
  also have "\<dots> = signed_take_bit 63 (signed_take_bit 63 r * signed_take_bit 63 (sint w))"
    by (simp only: w)
  also have "\<dots> = signed_take_bit 63 (r * sint w)"
    by (rule signed_take_bit_mult)
  also have "\<dots> = r * sint w"
    using assms by (intro signed_take_bit_int_eq_self) simp_all
  finally show ?thesis .
qed

lemma tooManySilences_no_overflow:
  assumes "- (2 ^ 63) \<le> r * sint (StepDuration cfg)" and "r * sint (StepDuration cfg) < 2 ^ 63"
  shows "tooManySilences cfg r \<longleftrightarrow> sint (SilenceMinDuration cfg) \<le> r * sint (StepDuration cfg)"
  by (simp add: tooManySilences_def sint_word_of_int_mult [OF assms])

lemma processSilences_loud_run:
  assumes "\<not> tooManySilences (c d) 0" and "0 \<le> i" and "i \<le> a"
    and "a \<le> int (length (audioLevels d))"
    and "\<forall>j. nat i \<le> j \<and> j < nat a \<longrightarrow> \<not> audioLevels d ! j < thr"
  shows "processSilences thr n d i 0 vs = processSilences thr n d a 0 vs"
  using assms(2,3,5)
proof (induction "nat (a - i)" arbitrary: i)
  case 0
  then show ?case by simp
next
  case (Suc k)
  then have lt: "i < a" by linarith
  then have len: "i < int (length (audioLevels d))" using assms(4) by simp
  have loud: "\<not> audioLevels d ! nat i < thr"
    using Suc.prems lt by (intro Suc.prems(3) [rule_format]) auto
  have step: "processSilences thr n d i 0 vs = processSilences thr n d (i + 1) 0 vs"
    by (subst processSilences.simps)
      (simp add: len loud processSilencesInTheMiddle_calm [OF assms(1)])
  have "processSilences thr n d (i + 1) 0 vs = processSilences thr n d a 0 vs"
  proof (rule Suc.hyps(1))
    show "k = nat (a - (i + 1))" using Suc.hyps(2) by linarith
    show "0 \<le> i + 1" using Suc.prems(1) by simp
    show "i + 1 \<le> a" using lt by simp
    show "\<forall>j. nat (i + 1) \<le> j \<and> j < nat a \<longrightarrow> \<not> audioLevels d ! j < thr"
      using Suc.prems(1,3) by (auto simp: nat_add_distrib)
  qed
  with step show ?case by simp
qed

lemma processSilences_silent_run:
  assumes "0 \<le> i" and "i \<le> b" and "b \<le> int (length (audioLevels d))"
    and "\<forall>j. nat i \<le> j \<and> j < nat b \<longrightarrow> audioLevels d ! j < thr"
  shows "processSilences thr n d i sc vs = processSilences thr n d b (sc + (b - i)) vs"
  using assms(1,2,4)
proof (induction "nat (b - i)" arbitrary: i sc)
  case 0
  then show ?case by simp
next
  case (Suc k)
  then have lt: "i < b" by linarith
  then have len: "i < int (length (audioLevels d))" using assms(3) by simp
  have silent: "audioLevels d ! nat i < thr"
    using Suc.prems lt by (intro Suc.prems(3) [rule_format]) auto
  have step: "processSilences thr n d i sc vs = processSilences thr n d (i + 1) (sc + 1) vs"
    by (subst processSilences.simps) (simp add: len silent)
  have "processSilences thr n d (i + 1) (sc + 1) vs
      = processSilences thr n d b (sc + 1 + (b - (i + 1))) vs"
  proof (rule Suc.hyps(1))
    show "k = nat (b - (i + 1))" using Suc.hyps(2) by linarith
    show "0 \<le> i + 1" using Suc.prems(1) by simp
    show "i + 1 \<le> b" using lt by simp
    show "\<forall>j. nat (i + 1) \<le> j \<and> j < nat b \<longrightarrow> audioLevels d ! j < thr"
      using Suc.prems(1,3) by (auto simp: nat_add_distrib)
  qed
  with step show ?case by (simp add: algebra_simps)
qed

lemma processSilencesInTheMiddle_Inr_cases:
  assumes "processSilencesInTheMiddle d (int N) i sc vs = Inr (vs', d')"
    and "sc < i" and "length (audioLevels d) * N \<le> length (samples d)"
  shows "(vs' = vs \<and> d' = d)
    \<or> (\<exists>seg. vs' = vs @ [seg] \<and> length seg = nat (i - sc) * N)"
proof (cases "tooManySilences (c d) sc")
  case False
  with assms(1) show ?thesis by (simp add: processSilencesInTheMiddle_calm)
next
  case True
  have le: "i - sc \<le> int (length (audioLevels d))"
    using assms(1) True
    by (auto simp: processSilencesInTheMiddle_def Let_def slice_from_def
        split: if_splits sum.splits)
  let ?m = "nat (i - sc)"
  have "?m * N \<le> length (audioLevels d) * N" using le by (intro mult_right_mono) auto
  from order_trans [OF this assms(3)] have sle: "?m * N \<le> length (samples d)" .
  from assms(1) processSilencesInTheMiddle_cut [OF True _ le assms(3), of vs] assms(2)
  have "vs' = vs @ [take (?m * N) (samples d)]" by simp
  moreover have "length (take (?m * N) (samples d)) = ?m * N" using sle by simp
  ultimately show ?thesis by blast
qed

lemma processSilences_first_segment:
  assumes "1 \<le> N" and "0 \<le> sc" and "sc < i"
    and "length (audioLevels d) * N \<le> length (samples d)"
    and "processSilences thr (int N) d i sc vs = Inr (vs', d', i', sc')"
  shows "(vs' = vs \<and> d' = d \<and> i - sc \<le> i' - sc')
    \<or> (\<exists>seg new. vs' = vs @ seg # new \<and> nat (i - sc) * N \<le> length seg)"
  using assms
proof (induction thr "int N" d i sc vs rule: processSilences.induct)
  case (1 thr d i sc vs)
  note res = "1.prems"(5)
  show ?case
  proof (cases "i < int (length (audioLevels d))")
    case False
    then have "processSilences thr (int N) d i sc vs = Inr (vs, d, i, sc)"
      by (subst processSilences.simps) simp
    with res show ?thesis by simp
  next
    case True
    show ?thesis
    proof (cases "audioLevels d ! nat i < thr")
      case silent: True
      have step: "processSilences thr (int N) d i sc vs
          = processSilences thr (int N) d (i + 1) (sc + 1) vs"
        by (subst processSilences.simps) (simp add: True silent)
      have "(vs' = vs \<and> d' = d \<and> (i + 1) - (sc + 1) \<le> i' - sc')
        \<or> (\<exists>seg new. vs' = vs @ seg # new \<and> nat ((i + 1) - (sc + 1)) * N \<le> length seg)"
        using "1.prems" res step by (intro "1.hyps"(1) [OF True silent]) auto
      then show ?thesis by simp
    next
      case loud: False
      have le: "i - sc \<le> int (length (audioLevels d))" using True "1.prems"(2) by simp
      obtain vs1 d1 where p: "processSilencesInTheMiddle d (int N) i sc vs = Inr (vs1, d1)"
      proof (cases "tooManySilences (c d) sc")
        case True
        from processSilencesInTheMiddle_cut [OF True _ le "1.prems"(4), of vs] "1.prems"(3)
        show ?thesis using that by simp
      next
        case False
        then show ?thesis using that by (simp add: processSilencesInTheMiddle_calm)
      qed
      have c1: "cutOff N d vs d1 vs1"
        using processSilencesInTheMiddle_Inr [OF p "1.prems"(3,1,4)] .
      have sz1: "length (audioLevels d1) * N \<le> length (samples d1)"
        using cutOff_size [OF c1 "1.prems"(4)] .
      have step: "processSilences thr (int N) d i sc vs
          = processSilences thr (int N) d1 (i + 1) 0 vs1"
        by (subst processSilences.simps) (simp add: True loud p)
      have IH: "(vs' = vs1 \<and> d' = d1 \<and> (i + 1) - 0 \<le> i' - sc')
        \<or> (\<exists>seg new. vs' = vs1 @ seg # new \<and> nat ((i + 1) - 0) * N \<le> length seg)"
        using "1.prems" sz1 res step by (intro "1.hyps"(2) [OF True loud p refl]) auto
      have mono: "nat (i - sc) * N \<le> nat (i + 1) * N"
        using "1.prems"(2) by (intro mult_right_mono) auto
      from processSilencesInTheMiddle_Inr_cases [OF p "1.prems"(3,4)]
      show ?thesis
      proof
        assume same: "vs1 = vs \<and> d1 = d"
        from IH show ?thesis
        proof
          assume "vs' = vs1 \<and> d' = d1 \<and> (i + 1) - 0 \<le> i' - sc'"
          then show ?thesis using same "1.prems"(2) by auto
        next
          assume "\<exists>seg new. vs' = vs1 @ seg # new \<and> nat ((i + 1) - 0) * N \<le> length seg"
          then obtain seg new where "vs' = vs @ seg # new" "nat (i + 1) * N \<le> length seg"
            using same by auto
          moreover from mono this(2) have "nat (i - sc) * N \<le> length seg"
            by (rule order_trans)
          ultimately show ?thesis by blast
        qed
      next
        assume "\<exists>seg. vs1 = vs @ [seg] \<and> length seg = nat (i - sc) * N"
        then obtain seg0 where s0: "vs1 = vs @ [seg0]" "length seg0 = nat (i - sc) * N"
          by blast
        from IH have "\<exists>new. vs' = vs @ seg0 # new" using s0(1) by auto
        then show ?thesis using s0(2) by auto
      qed
    qed
  qed
qed

text \<open>The scan of lines 96 to 108 from an index on, followed by the call of line 111.\<close>

lemma scan_first_segment:
  assumes "1 \<le> N" and "0 \<le> sc" and "sc < i"
    and "length (audioLevels d) * N \<le> length (samples d)"
    and "(case processSilences thr (int N) d i sc vs0 of
            Inl e \<Rightarrow> Inl e
          | Inr (vs, d3, i3, sc3) \<Rightarrow> processSilencesInTheMiddle d3 (int N) i3 sc3 vs)
         = Inr (vs, d')"
  shows "\<exists>new. vs = vs0 @ new \<and> (new = [] \<or> nat (i - sc) * N \<le> length (hd new))"
proof -
  from assms(5) obtain vs3 d3 i3 sc3 where
    l: "processSilences thr (int N) d i sc vs0 = Inr (vs3, d3, i3, sc3)"
    and f: "processSilencesInTheMiddle d3 (int N) i3 sc3 vs3 = Inr (vs, d')"
    by (auto split: sum.splits prod.splits)
  have "cutOff N d vs0 d3 vs3 \<and> sc3 < i3"
  proof (cases "0 < sc \<longrightarrow> i \<le> int (length (audioLevels d))")
    case True
    from processSilences_cutOff [OF assms(1-3) True assms(4), of thr vs0] l
    show ?thesis by auto
  next
    case False
    then have "\<not> i < int (length (audioLevels d))" by simp
    then have "processSilences thr (int N) d i sc vs0 = Inr (vs0, d, i, sc)"
      by (subst processSilences.simps) simp
    then show ?thesis using assms(3) l cutOff_refl [of N d vs0] by auto
  qed
  then have c3: "cutOff N d vs0 d3 vs3" and sc3: "sc3 < i3" by auto
  have sz3: "length (audioLevels d3) * N \<le> length (samples d3)"
    by (rule cutOff_size [OF c3 assms(4)])
  note fin = processSilencesInTheMiddle_Inr_cases [OF f sc3 sz3]
  from processSilences_first_segment [OF assms(1-4) l]
  show ?thesis
  proof
    assume a: "vs3 = vs0 \<and> d3 = d \<and> i - sc \<le> i3 - sc3"
    from fin show ?thesis
    proof
      assume "vs = vs3 \<and> d' = d3"
      then show ?thesis using a by simp
    next
      assume "\<exists>seg. vs = vs3 @ [seg] \<and> length seg = nat (i3 - sc3) * N"
      then obtain seg where s: "vs = vs0 @ [seg]" "length seg = nat (i3 - sc3) * N"
        using a by auto
      have "nat (i - sc) * N \<le> nat (i3 - sc3) * N"
        using a by (intro mult_right_mono) auto
      then show ?thesis using s by simp
    qed
  next
    assume "\<exists>seg new. vs3 = vs0 @ seg # new \<and> nat (i - sc) * N \<le> length seg"
    then obtain seg new where s: "vs3 = vs0 @ seg # new" "nat (i - sc) * N \<le> length seg"
      by blast
    from fin have "\<exists>new'. vs = vs3 @ new'" by auto
    then obtain new' where "vs = vs0 @ (seg # new @ new')" using s(1) by auto
    then show ?thesis using s(2) by (intro exI [of _ "seg # new @ new'"]) simp
  qed
qed

lemma countSilencesAtStart_le_1:
  assumes "2 \<le> length ls" and "\<not> ls ! 0 < thr \<or> \<not> ls ! 1 < thr"
  shows "countSilencesAtStart thr ls \<le> 1"
proof -
  obtain x y rest where "ls = x # y # rest"
    using assms(1) by (cases ls; cases "tl ls") auto
  then show ?thesis using assms(2) by auto
qed

text \<open>
  A window of no sample. The loop of line 63 does not run (\<open>levelsToCompute\<close>), every
  product of a number of windows and the window size is 0: the levels are pruned and cut as
  for any window size, while the samples stay and the segments are empty. \<open>cutOff 0\<close>
  says just that.
\<close>

lemma Add_zero:
  "Add AL d smpls 0 thr =
     (let d2 = pruneStart thr 0 (d\<lparr>samples := samples d @ smpls\<rparr>) in
      if length (audioLevels d2) \<le> 1 then Inr ([], d2)
      else (case processSilences thr 0 d2 1 0 [] of
              Inl e \<Rightarrow> Inl e
            | Inr (vs, d3, i, sc) \<Rightarrow> processSilencesInTheMiddle d3 0 i sc vs))"
proof -
  let ?d = "d\<lparr>samples := samples d @ smpls\<rparr>"
  have b: "levelsToCompute q 0 \<le> 0" for q
    by (simp add: levelsToCompute_def)
  have cl: "computeAudioLevels AL 0 p (levelsToCompute q 0) 0 ?d = Inr ?d" for p q
    by (rule computeAudioLevels_none [OF b])
  have kp: "keepOneSilenceAtStart ?d 0 (countSilencesAtStart thr (audioLevels ?d))
      = Inr (pruneStart thr 0 ?d)"
    using keepOneSilenceAtStart_pruneStart [of ?d 0 thr] by simp
  show ?thesis
    unfolding Add_def Let_def using cl kp
    by (simp split: sum.splits prod.splits)
qed

lemma Add_zero_Inr:
  assumes "Add AL d smpls 0 thr = Inr (vs, d')"
  shows "cutOff 0 (pruneStart thr 0 (d\<lparr>samples := samples d @ smpls\<rparr>)) [] d' vs"
proof -
  let ?d2 = "pruneStart thr 0 (d\<lparr>samples := samples d @ smpls\<rparr>)"
  have sz: "length (audioLevels ?d2) * 0 \<le> length (samples ?d2)" by simp
  note A = Add_zero [of AL d smpls thr]
  show ?thesis
  proof (cases "length (audioLevels ?d2) \<le> 1")
    case True
    with A assms show ?thesis by (simp add: Let_def cutOff_refl)
  next
    case False
    obtain vs3 d3 i3 sc3 where
      l: "processSilences thr (int 0) ?d2 1 0 [] = Inr (vs3, d3, i3, sc3)"
      and c3: "cutOff 0 ?d2 [] d3 vs3" and sc: "sc3 < i3"
      using processSilences_cutOff_any [OF _ _ _ sz, of 0 1 thr "[]"] by auto
    have f: "processSilencesInTheMiddle d3 (int 0) i3 sc3 vs3 = Inr (vs, d')"
      using A assms False l by (simp add: Let_def)
    have "cutOff 0 d3 vs3 d' vs"
      using processSilencesInTheMiddle_Inr_any [OF f sc] by simp
    with c3 show ?thesis by (rule cutOff_trans)
  qed
qed

lemma Add_zero_returns:
  assumes "\<not> tooManySilences (c d) 0"
  shows "\<exists>vs d'. Add AL d smpls 0 thr = Inr (vs, d')"
proof -
  let ?d2 = "pruneStart thr 0 (d\<lparr>samples := samples d @ smpls\<rparr>)"
  have sz: "length (audioLevels ?d2) * 0 \<le> length (samples ?d2)" by simp
  note A = Add_zero [of AL d smpls thr]
  show ?thesis
  proof (cases "length (audioLevels ?d2) \<le> 1")
    case True
    with A show ?thesis by (simp add: Let_def)
  next
    case False
    obtain vs3 d3 i3 sc3 where
      l: "processSilences thr (int 0) ?d2 1 0 [] = Inr (vs3, d3, i3, sc3)"
      and c3: "cutOff 0 ?d2 [] d3 vs3" and sc: "0 \<le> sc3" "sc3 < i3"
      and i3: "0 < sc3 \<longrightarrow> i3 \<le> int (length (audioLevels d3))"
      using processSilences_cutOff_any [OF _ _ _ sz, of 0 1 thr "[]"] by auto
    have cd: "c d3 = c d" using cutOff_c [OF c3] by simp
    have "\<exists>r. processSilencesInTheMiddle d3 (int 0) i3 sc3 vs3 = Inr r"
    proof (cases "tooManySilences (c d3) sc3")
      case False
      then show ?thesis by (simp add: processSilencesInTheMiddle_calm)
    next
      case True
      then have "sc3 \<noteq> 0" using assms cd by auto
      then have "i3 - sc3 \<le> int (length (audioLevels d3))" using sc i3 by simp
      from processSilencesInTheMiddle_cut [OF True _ this, of 0 vs3] sc
      show ?thesis by simp
    qed
    then show ?thesis using A False l by (auto simp: Let_def)
  qed
qed

lemma cutOff_zero:
  assumes "cutOff 0 d [] d' vs"
  shows "(\<exists>m. audioLevels d' = drop m (audioLevels d)) \<and> samples d' = samples d
     \<and> c d' = c d \<and> concat vs = []"
  using assms unfolding cutOff_def by auto

lemma processSilencesInTheMiddle_zero:
  "processSilencesInTheMiddle d 0 i sc vs \<noteq> Inl MakeLenOutOfRange"
  by (simp add: processSilencesInTheMiddle_def slice_to_def slice_from_def split: sum.splits)

lemma Add_zero_Inl:
  assumes "Add AL d smpls 0 thr = Inl e"
  shows "e = SliceBoundsOutOfRange \<and> sint (SilenceMinDuration (c d)) \<le> 0"
proof -
  let ?d2 = "pruneStart thr 0 (d\<lparr>samples := samples d @ smpls\<rparr>)"
  have sz: "length (audioLevels ?d2) * 0 \<le> length (samples ?d2)" by simp
  note A = Add_zero [of AL d smpls thr]
  have 1: "sint (SilenceMinDuration (c d)) \<le> 0"
    using Add_zero_returns [of d AL smpls thr] assms by (auto simp: tooManySilences_0)
  have "e \<noteq> MakeLenOutOfRange"
  proof (cases "length (audioLevels ?d2) \<le> 1")
    case True
    with A assms show ?thesis by (simp add: Let_def)
  next
    case False
    obtain vs3 d3 i3 sc3 where
      l: "processSilences thr (int 0) ?d2 1 0 [] = Inr (vs3, d3, i3, sc3)"
      using processSilences_cutOff_any [OF _ _ _ sz, of 0 1 thr "[]"] by auto
    have "processSilencesInTheMiddle d3 0 i3 sc3 vs3 = Inl e"
      using A assms False l by (simp add: Let_def)
    then show ?thesis using processSilencesInTheMiddle_zero [of d3 i3 sc3 vs3] by auto
  qed
  then have "e = SliceBoundsOutOfRange" by (cases e) auto
  with 1 show ?thesis by simp
qed

lemma Add_zero_kept:
  assumes "Add AL d smpls 0 thr = Inr (vs, d')"
  shows "\<exists>m. concat vs = [] \<and> audioLevels d' = drop m (audioLevels d)
     \<and> samples d' = samples d @ smpls \<and> c d' = c d"
proof -
  let ?d = "d\<lparr>samples := samples d @ smpls\<rparr>"
  obtain k where k: "pruneStart thr 0 ?d = ?d\<lparr>audioLevels := drop k (audioLevels ?d),
      samples := drop (k * 0) (samples ?d)\<rparr>"
    using pruneStart_cut [of ?d thr 0] by blast
  from cutOff_zero [OF Add_zero_Inr [OF assms]]
  obtain m where "audioLevels d' = drop m (audioLevels (pruneStart thr 0 ?d))"
    and "samples d' = samples (pruneStart thr 0 ?d)"
    and "c d' = c (pruneStart thr 0 ?d)" and "concat vs = []"
    by blast
  then have "concat vs = [] \<and> audioLevels d' = drop (k + m) (audioLevels d)
     \<and> samples d' = samples d @ smpls \<and> c d' = c d"
    using k by (simp add: add.commute)
  then show ?thesis by blast
qed

lemma Add_zero_short:
  assumes "length (audioLevels d) \<le> 1"
  shows "Add AL d smpls 0 thr = Inr ([], d\<lparr>samples := samples d @ smpls\<rparr>)"
proof -
  let ?d = "d\<lparr>samples := samples d @ smpls\<rparr>"
  have "countSilencesAtStart thr (audioLevels d) \<le> 1"
    using countSilencesAtStart_bounds [of thr "audioLevels d"] assms by linarith
  then have "pruneStart thr 0 ?d = ?d" by (simp add: pruneStart_def)
  then show ?thesis using assms by (simp add: Add_zero Let_def)
qed

text \<open>A negative window size: no level is computed, and the first cut panics.\<close>

lemma Add_negative_cases:
  assumes "n < 0"
  shows "(Add AL d smpls n thr = Inr ([], d\<lparr>samples := samples d @ smpls\<rparr>)
      \<or> Add AL d smpls n thr = Inl SliceBoundsOutOfRange
      \<or> Add AL d smpls n thr = Inl MakeLenOutOfRange)
    \<and> (length (audioLevels d) \<le> 1 \<longrightarrow>
          Add AL d smpls n thr = Inr ([], d\<lparr>samples := samples d @ smpls\<rparr>))"
proof -
  let ?d = "d\<lparr>samples := samples d @ smpls\<rparr>"
  note A = Add_negative [OF assms, of AL d smpls thr]
  have k1: "countSilencesAtStart thr (audioLevels d) \<le> 1" if "length (audioLevels d) \<le> 1"
    using countSilencesAtStart_bounds [of thr "audioLevels d"] that by linarith
  have 2: "length (audioLevels d) \<le> 1 \<longrightarrow> Add AL d smpls n thr = Inr ([], ?d)"
    using A k1 by auto
  have 1: "Add AL d smpls n thr = Inr ([], ?d)
      \<or> Add AL d smpls n thr = Inl SliceBoundsOutOfRange
      \<or> Add AL d smpls n thr = Inl MakeLenOutOfRange"
  proof (cases "1 < countSilencesAtStart thr (audioLevels d)")
    case True
    then show ?thesis using A by simp
  next
    case k: False
    show ?thesis
    proof (cases "length (audioLevels d) \<le> 1")
      case True
      then show ?thesis using 2 by simp
    next
      case False
      have "processSilences thr n ?d 1 0 [] = Inl MakeLenOutOfRange
        \<or> (\<exists>i' sc'. processSilences thr n ?d 1 0 [] = Inr ([], ?d, i', sc') \<and> sc' < i')"
        by (rule processSilences_negative [OF assms]) simp_all
      then show ?thesis
      proof
        assume "processSilences thr n ?d 1 0 [] = Inl MakeLenOutOfRange"
        then show ?thesis using A k False by simp
      next
        assume "\<exists>i' sc'. processSilences thr n ?d 1 0 [] = Inr ([], ?d, i', sc') \<and> sc' < i'"
        then obtain i' sc' where l: "processSilences thr n ?d 1 0 [] = Inr ([], ?d, i', sc')"
          and s: "sc' < i'" by blast
        from processSilencesInTheMiddle_negative [OF assms s, of ?d "[]"]
        show ?thesis using A k False l by auto
      qed
    qed
  qed
  show ?thesis using 1 2 by blast
qed

text \<open>
  After a call that returned, fewer samples than one window are without a level; a call
  with an empty chunk then stops at the test of line 58.
\<close>

lemma newLevels_rest:
  assumes "1 \<le> N" and "length (audioLevels d) * N \<le> length (samples d @ smpls)"
  shows "length (samples (newLevels AL N d smpls))
      < length (audioLevels (newLevels AL N d smpls)) * N + N"
proof -
  let ?a = "length (samples d @ smpls)" and ?b = "length (audioLevels d) * N"
  define r where "r = ?a - ?b"
  have "r mod N < N" using assms(1) by simp
  moreover have "r = r div N * N + r mod N" by simp
  ultimately have "r < r div N * N + N" by linarith
  then have "?a < ?b + r div N * N + N" using assms(2) unfolding r_def by linarith
  then show ?thesis by (simp add: newLevels_def add_mult_distrib r_def)
qed

lemma drop_rest:
  assumes "m \<le> length ls" and "length ss < length ls * N + N"
  shows "length (drop (m * N) ss) < length (drop m ls) * N + N"
proof -
  define a b where "a = m * N" and "b = length ls * N"
  have "a \<le> b" using assms(1) by (simp add: a_def b_def)
  moreover have "length ss < b + N" using assms(2) by (simp add: b_def)
  moreover have "0 < N" using assms(2) by (cases N) simp_all
  ultimately have "length ss - a < (b - a) + N" by linarith
  then show ?thesis by (simp add: diff_mult_distrib a_def b_def)
qed

lemma pruneStart_rest:
  assumes "length (samples d) < length (audioLevels d) * N + N"
  shows "length (samples (pruneStart thr N d)) < length (audioLevels (pruneStart thr N d)) * N + N"
proof -
  obtain m where m: "m \<le> length (audioLevels d)"
    "pruneStart thr N d = d\<lparr>audioLevels := drop m (audioLevels d), samples := drop (m * N) (samples d)\<rparr>"
    using pruneStart_cut by blast
  from drop_rest [OF m(1) assms] show ?thesis using m(2) by simp
qed

lemma cutOff_rest:
  assumes "cutOff N d vs d' vs'" and "length (samples d) < length (audioLevels d) * N + N"
  shows "length (samples d') < length (audioLevels d') * N + N"
proof -
  from assms(1) obtain m where a: "m \<le> length (audioLevels d)"
    "audioLevels d' = drop m (audioLevels d)" "samples d' = drop (m * N) (samples d)"
    unfolding cutOff_def by blast
  from drop_rest [OF a(1) assms(2)] show ?thesis using a by simp
qed

lemma Add_rest:
  assumes "1 \<le> N" and "Add AL d smpls (int N) thr = Inr (vs, d')"
  shows "length (samples d') < length (audioLevels d') * N + N"
proof (cases "length (audioLevels d) * N + N \<le> length (samples d @ smpls)")
  case False
  then have "int (length (samples d) + length smpls) - int (length (audioLevels d)) * int N < int N"
    using enough_int [OF assms(1), of d smpls] by simp
  then have "d' = d\<lparr>samples := samples d @ smpls\<rparr>"
    using assms(2) by (simp add: Add_not_enough)
  then show ?thesis using False by simp
next
  case True
  then have le: "length (audioLevels d) * N \<le> length (samples d @ smpls)" by simp
  from Add_Inr_cutOff [OF assms(1) True assms(2)]
  have "cutOff N (pruneStart thr N (newLevels AL N d smpls)) [] d' vs" .
  then show ?thesis
    by (rule cutOff_rest) (intro pruneStart_rest newLevels_rest assms(1) le)
qed

lemma Add_empty_chunk:
  assumes "1 \<le> N" and "length (samples d) < length (audioLevels d) * N + N"
  shows "Add AL d [] (int N) thr = Inr ([], d)"
proof -
  have "int (length (samples d) + length ([] :: 32 word list))
      - int (length (audioLevels d)) * int N < int N"
    using enough_int [OF assms(1), of d "[]"] assms(2) by simp
  from Add_not_enough [OF this, of AL thr] show ?thesis by simp
qed

section \<open>The buffers stay in lock-step\<close>

text \<open>
  Claim C1. With a window of at least one sample, used in every call since the last
  \<open>Reset\<close>: after every \<open>Add\<close> call the windows that the levels stand for fit in the
  samples, \<open>len(levels) * n \<le> len(samples)\<close>, and every level \<open>levels[i]\<close> is the level of
  \<open>samples[i*n : (i+1)*n]\<close>. The calls are those of \<open>AddAll\<close>, any number of them with any
  chunks and thresholds, so the state after the last one is the state after any call.
  With a positive \<open>SilenceMinDuration\<close> no call panics.
\<close>

theorem lock_step_after_every_Add:
  assumes "1 \<le> n"
  shows "(0 < sint (SilenceMinDuration (c d)) \<longrightarrow> (\<exists>r. AddAll AL (Reset d) calls n = Inr r))
    \<and> (\<forall>outs d'. AddAll AL (Reset d) calls n = Inr (outs, d') \<longrightarrow>
          int (length (audioLevels d')) * n \<le> int (length (samples d'))
          \<and> (\<forall>i<length (audioLevels d').
                audioLevels d' ! i = AL (take (nat n) (drop (i * nat n) (samples d')))))"
proof -
  obtain N where N: "n = int N" "1 \<le> N" using assms by (cases n) auto
  have cR: "c (Reset d) = c d" by (simp add: Reset_def)
  have 1: "0 < sint (SilenceMinDuration (c d)) \<longrightarrow> (\<exists>r. AddAll AL (Reset d) calls n = Inr r)"
    using AddAll_returns [OF N(2), of "Reset d" AL calls]
    by (simp add: N(1) cR tooManySilences_0)
  have 2: "int (length (audioLevels d')) * n \<le> int (length (samples d'))
          \<and> (\<forall>i<length (audioLevels d').
                audioLevels d' ! i = AL (take (nat n) (drop (i * nat n) (samples d'))))"
    if "AddAll AL (Reset d) calls n = Inr (outs, d')" for outs d'
  proof -
    have "lockStep AL N d'"
      using AddAll_lockStep [OF lockStep_Reset N(2)] that by (simp add: N(1))
    then have "length (audioLevels d') * N \<le> length (samples d')"
      and "\<forall>i<length (audioLevels d'). audioLevels d' ! i = AL (take N (drop (i * N) (samples d')))"
      by (simp_all add: lockStep_nth)
    then show ?thesis by (simp add: N(1) flip: of_nat_mult)
  qed
  show ?thesis using 1 2 by blast
qed

theorem lock_step_after_every_Add_witness:
  "(1::int) \<le> 2
   \<and> 0 < sint (SilenceMinDuration (c (NewSilenceDetector
          \<lparr>SilenceMinDuration = 90 * Millisecond, StepDuration = 30 * Millisecond\<rparr>
          :: nat SilenceDetector)))
   \<and> AddAll (\<lambda>w. length (filter (\<lambda>x. x \<noteq> 0) w))
        (Reset (NewSilenceDetector
          \<lparr>SilenceMinDuration = 90 * Millisecond, StepDuration = 30 * Millisecond\<rparr>))
        [([5, 5, 5, 5, 0, 0, 0], 1), ([0, 0, 0, 5, 5, 5], 1), ([0, 0, 0, 0, 0, 0, 0, 0, 3], 1)] 2
      = Inr ([([], []), ([], [[5, 5, 5, 5]]), ([0, 0, 0, 0], [[0, 0, 5, 5, 5, 0]])],
             \<lparr>audioLevels = [0, 0, 0, 1],
                c = \<lparr>SilenceMinDuration = 90000000, StepDuration = 30000000\<rparr>,
                samples = [0, 0, 0, 0, 0, 0, 0, 3]\<rparr>)
   \<and> int (length [0, 0, 0, 1 :: nat]) * 2 \<le> int (length [0, 0, 0, 0, 0, 0, 0, 3 :: 32 word])
   \<and> [0, 0, 0, 1 :: nat]
       = map (\<lambda>i. length (filter (\<lambda>x. x \<noteq> 0)
                 (take 2 (drop (i * 2) [0, 0, 0, 0, 0, 0, 0, 3 :: 32 word])))) [0, 1, 2, 3]"
proof -
  let ?AL = "\<lambda>w :: 32 word list. length (filter (\<lambda>x. x \<noteq> 0) w)"
  let ?D = "NewSilenceDetector
      \<lparr>SilenceMinDuration = 90 * Millisecond, StepDuration = 30 * Millisecond\<rparr> :: nat SilenceDetector"
  let ?calls = "[([5, 5, 5, 5, 0, 0, 0], 1), ([0, 0, 0, 5, 5, 5], 1),
      ([0, 0, 0, 0, 0, 0, 0, 0, 3], 1)] :: (32 word list \<times> nat) list"
  let ?D' = "\<lparr>audioLevels = [0, 0, 0, 1 :: nat],
                c = \<lparr>SilenceMinDuration = 90000000, StepDuration = 30000000\<rparr>,
                samples = [0, 0, 0, 0, 0, 0, 0, 3]\<rparr>"
  have h1: "(1::int) \<le> 2" by simp
  have h2: "0 < sint (SilenceMinDuration (c ?D))" by code_simp
  have h3: "AddAll ?AL (Reset ?D) ?calls 2
      = Inr ([([], []), ([], [[5, 5, 5, 5]]), ([0, 0, 0, 0], [[0, 0, 5, 5, 5, 0]])], ?D')"
    by code_simp
  from lock_step_after_every_Add [OF h1, of ?D ?AL ?calls] h3
  have "int (length (audioLevels ?D')) * 2 \<le> int (length (samples ?D'))
      \<and> (\<forall>i<length (audioLevels ?D').
            audioLevels ?D' ! i = ?AL (take (nat 2) (drop (i * nat 2) (samples ?D'))))"
    by blast
  then have "int (length (audioLevels ?D')) * 2 \<le> int (length (samples ?D'))"
    and "audioLevels ?D' ! 0 = ?AL (take 2 (drop (0 * 2) (samples ?D')))"
    and "audioLevels ?D' ! 1 = ?AL (take 2 (drop (1 * 2) (samples ?D')))"
    and "audioLevels ?D' ! 2 = ?AL (take 2 (drop (2 * 2) (samples ?D')))"
    and "audioLevels ?D' ! 3 = ?AL (take 2 (drop (3 * 2) (samples ?D')))"
    by simp_all
  then show ?thesis using h1 h2 h3 by simp
qed

section \<open>Not enough samples for a window\<close>

text \<open>
  Claim C8. When, once the chunk is appended, fewer samples than one window are not yet
  analysed, \<open>Add\<close> returns normally with no segment, the levels are the ones before the
  call, the samples are the ones before the call followed by the chunk, and the
  configuration is untouched. The window size is at least 1, and the number of levels
  times the window size fits in Go's 64-bit \<open>int\<close>: beyond that the product of line 52
  wraps around and the test of line 58 is made on another number.
\<close>

theorem Add_insufficient_data:
  assumes "1 \<le> n"
    and "int (length (audioLevels d)) * n < 2 ^ 63"
    and "int (length (samples d @ smpls)) - int (length (audioLevels d)) * n < n"
  shows "\<exists>d'. Add AL d smpls n thr = Inr ([], d')
      \<and> audioLevels d' = audioLevels d
      \<and> samples d' = samples d @ smpls
      \<and> c d' = c d"
  using assms(3) by (simp add: Add_not_enough)

theorem Add_insufficient_data_witness:
  "(1::int) \<le> 3
   \<and> int (length (audioLevels (NewSilenceDetector \<lparr>SilenceMinDuration = 0, StepDuration = 0\<rparr>
                :: nat SilenceDetector))) * 3 < 2 ^ 63
   \<and> int (length (samples (NewSilenceDetector \<lparr>SilenceMinDuration = 0, StepDuration = 0\<rparr>
                :: nat SilenceDetector) @ [7, 8]))
       - int (length (audioLevels (NewSilenceDetector \<lparr>SilenceMinDuration = 0, StepDuration = 0\<rparr>
                :: nat SilenceDetector))) * 3 < 3
   \<and> (\<exists>d'. Add (\<lambda>w. length (filter (\<lambda>x. x \<noteq> 0) w))
              (NewSilenceDetector \<lparr>SilenceMinDuration = 0, StepDuration = 0\<rparr>) [7, 8] 3 1
            = Inr ([], d')
        \<and> audioLevels d' = []
        \<and> samples d' = [7, 8]
        \<and> c d' = \<lparr>SilenceMinDuration = Second, StepDuration = 30 * Millisecond\<rparr>)"
proof -
  let ?d = "NewSilenceDetector \<lparr>SilenceMinDuration = 0, StepDuration = 0\<rparr> :: nat SilenceDetector"
  have h1: "(1::int) \<le> 3" by simp
  have h2: "int (length (audioLevels ?d)) * 3 < 2 ^ 63"
    by (simp add: NewSilenceDetector_def Reset_def Let_def)
  have h3: "int (length (samples ?d @ [7, 8])) - int (length (audioLevels ?d)) * 3 < 3"
    by (simp add: NewSilenceDetector_def Reset_def Let_def)
  show ?thesis
    using h1 h2 h3 Add_insufficient_data [OF h1 h2 h3, of "\<lambda>w. length (filter (\<lambda>x. x \<noteq> 0) w)" 1]
    by (simp add: NewSilenceDetector_def Reset_def Let_def)
qed

section \<open>Segments are made of whole windows\<close>

text \<open>
  Claim C9. For a window of at least one sample, every segment that an \<open>Add\<close> call returns
  is non-empty and its length is a positive multiple of the window size: it is made of one
  or more whole windows. The call returns, never panics, when \<open>SilenceMinDuration\<close> is
  positive. The detector is any detector for which the number of levels times the window
  size fits in Go's 64-bit \<open>int\<close> (line 52); past the test of line 58 that product is below
  the length of the samples, and so is every index that the call computes.
\<close>

theorem segments_are_whole_windows:
  assumes "1 \<le> n"
    and "int (length (audioLevels d)) * n < 2 ^ 63"
  shows "(0 < sint (SilenceMinDuration (c d)) \<longrightarrow> (\<exists>r. Add AL d smpls n thr = Inr r))
    \<and> (\<forall>vs d'. Add AL d smpls n thr = Inr (vs, d') \<longrightarrow>
          (\<forall>s\<in>set vs. s \<noteq> [] \<and> (\<exists>k\<ge>1. length s = k * nat n)))"
proof -
  obtain N where N: "n = int N" "1 \<le> N" using assms(1) by (cases n) auto
  have 1: "0 < sint (SilenceMinDuration (c d)) \<longrightarrow> (\<exists>r. Add AL d smpls n thr = Inr r)"
    using Add_returns [OF N(2), of d AL smpls thr] by (simp add: N(1) tooManySilences_0)
  have 2: "\<forall>s\<in>set vs. s \<noteq> [] \<and> (\<exists>k\<ge>1. length s = k * nat n)"
    if a: "Add AL d smpls n thr = Inr (vs, d')" for vs d'
  proof (cases "length (audioLevels d) * N + N \<le> length (samples d @ smpls)")
    case False
    then have "int (length (samples d) + length smpls) - int (length (audioLevels d)) * int N < int N"
      using enough_int [OF N(2), of d smpls] by simp
    then have "vs = []" using a by (simp add: N(1) Add_not_enough)
    then show ?thesis by simp
  next
    case True
    from Add_Inr_cutOff [OF N(2) True] a
    have "cutOff N (pruneStart thr N (newLevels AL N d smpls)) [] d' vs" by (simp add: N(1))
    from cutOff_segments [OF this N(2)] show ?thesis by (simp add: N(1))
  qed
  show ?thesis using 1 2 by blast
qed

theorem segments_are_whole_windows_witness:
  "(1::int) \<le> 2
   \<and> int (length (audioLevels \<lparr>audioLevels = [0, 0, 0, 2 :: nat],
           c = \<lparr>SilenceMinDuration = 90 * Millisecond, StepDuration = 30 * Millisecond\<rparr>,
           samples = [0, 0, 0, 0, 0, 0, 5, 5, 5]\<rparr>)) * 2 < 2 ^ 63
   \<and> 0 < sint (SilenceMinDuration \<lparr>SilenceMinDuration = 90 * Millisecond, StepDuration = 30 * Millisecond\<rparr>)
   \<and> Add (\<lambda>w. length (filter (\<lambda>x. x \<noteq> 0) w))
        \<lparr>audioLevels = [0, 0, 0, 2 :: nat],
           c = \<lparr>SilenceMinDuration = 90 * Millisecond, StepDuration = 30 * Millisecond\<rparr>,
           samples = [0, 0, 0, 0, 0, 0, 5, 5, 5]\<rparr>
        [0, 0, 0, 0, 0, 0, 0, 0, 3] 2 1
      = Inr ([[0, 0, 5, 5, 5, 0]],
             \<lparr>audioLevels = [0, 0, 0, 1],
                c = \<lparr>SilenceMinDuration = 90 * Millisecond, StepDuration = 30 * Millisecond\<rparr>,
                samples = [0, 0, 0, 0, 0, 0, 0, 3]\<rparr>)
   \<and> [0, 0, 5, 5, 5, 0 :: 32 word] \<noteq> []
   \<and> (\<exists>k\<ge>1. length [0, 0, 5, 5, 5, 0 :: 32 word] = k * nat 2)"
proof -
  let ?AL = "\<lambda>w :: 32 word list. length (filter (\<lambda>x. x \<noteq> 0) w)"
  let ?cfg = "\<lparr>SilenceMinDuration = 90 * Millisecond, StepDuration = 30 * Millisecond\<rparr>"
  let ?D = "\<lparr>audioLevels = [0, 0, 0, 2 :: nat], c = ?cfg,
      samples = [0, 0, 0, 0, 0, 0, 5, 5, 5]\<rparr>"
  let ?D' = "\<lparr>audioLevels = [0, 0, 0, 1 :: nat], c = ?cfg,
      samples = [0, 0, 0, 0, 0, 0, 0, 3]\<rparr>"
  have h1: "(1::int) \<le> 2" by simp
  have h0: "int (length (audioLevels ?D)) * 2 < 2 ^ 63" by simp
  have h2: "0 < sint (SilenceMinDuration ?cfg)" by code_simp
  have h3: "Add ?AL ?D [0, 0, 0, 0, 0, 0, 0, 0, 3] 2 1 = Inr ([[0, 0, 5, 5, 5, 0]], ?D')"
    by code_simp
  from segments_are_whole_windows [OF h1 h0, of ?AL "[0, 0, 0, 0, 0, 0, 0, 0, 3]" 1] h3
  have "\<forall>s\<in>set [[0, 0, 5, 5, 5, 0 :: 32 word]]. s \<noteq> [] \<and> (\<exists>k\<ge>1. length s = k * nat 2)"
    by blast
  then have "[0, 0, 5, 5, 5, 0 :: 32 word] \<noteq> [] \<and> (\<exists>k\<ge>1. length [0, 0, 5, 5, 5, 0 :: 32 word] = k * nat 2)"
    by simp
  then show ?thesis using h1 h0 h2 h3 by blast
qed

section \<open>No new window, no new look at the buffered levels\<close>

text \<open>
  Claim C10 says that a call that supplies fewer samples than one window returns before it
  compares any level with the threshold. As amended: what makes \<open>Add\<close> return early is
  that, the chunk appended, fewer samples than one window are without a level, the samples
  left over from earlier calls counted. Then \<open>Add\<close> returns no segment, only appends
  the chunk, and its result is the same for every threshold. An empty chunk is such a call
  when it comes after a call that returned with the same window size: that call left fewer
  samples than one window without a level. The window size is at least 1 and the number
  of levels times the window size fits in Go's 64-bit \<open>int\<close> (line 52).

  In the witness three levels are below the threshold of the call with the empty chunk: a
  call that analysed a window would have dropped two of them.
\<close>

theorem no_reclassification_without_new_window:
  assumes "1 \<le> n"
    and "int (length (audioLevels d)) * n < 2 ^ 63"
  shows "(int (length (samples d @ smpls)) - int (length (audioLevels d)) * n < n \<longrightarrow>
            Add AL d smpls n thr = Inr ([], d\<lparr>samples := samples d @ smpls\<rparr>)
          \<and> Add AL d smpls n thr' = Add AL d smpls n thr)
    \<and> (\<forall>vs d'. Add AL d smpls n thr = Inr (vs, d') \<longrightarrow>
          Add AL d' [] n thr' = Inr ([], d'))"
proof -
  obtain N where N: "n = int N" "1 \<le> N" using assms(1) by (cases n) auto
  have 1: "int (length (samples d @ smpls)) - int (length (audioLevels d)) * n < n \<longrightarrow>
            Add AL d smpls n thr = Inr ([], d\<lparr>samples := samples d @ smpls\<rparr>)
          \<and> Add AL d smpls n thr' = Add AL d smpls n thr"
    by (simp add: Add_not_enough)
  have 2: "Add AL d' [] n thr' = Inr ([], d')"
    if a: "Add AL d smpls n thr = Inr (vs, d')" for vs d'
  proof -
    from a have "Add AL d smpls (int N) thr = Inr (vs, d')" by (simp add: N(1))
    from Add_empty_chunk [OF N(2) Add_rest [OF N(2) this], of AL thr']
    show ?thesis by (simp add: N(1))
  qed
  show ?thesis using 1 2 by blast
qed

theorem no_reclassification_without_new_window_witness:
  "(1::int) \<le> 2
   \<and> int (length (audioLevels (NewSilenceDetector \<lparr>SilenceMinDuration = 0, StepDuration = 0\<rparr>
                :: nat SilenceDetector))) * 2 < 2 ^ 63
   \<and> int (length (audioLevels \<lparr>audioLevels = [0, 0, 0 :: nat],
           c = \<lparr>SilenceMinDuration = Second, StepDuration = 30 * Millisecond\<rparr>,
           samples = [0, 0, 0, 0, 0, 0, 9]\<rparr>)) * 2 < 2 ^ 63
   \<and> int (length (samples \<lparr>audioLevels = [0, 0, 0 :: nat],
           c = \<lparr>SilenceMinDuration = Second, StepDuration = 30 * Millisecond\<rparr>,
           samples = [0, 0, 0, 0, 0, 0, 9]\<rparr> @ []))
       - int (length (audioLevels \<lparr>audioLevels = [0, 0, 0 :: nat],
           c = \<lparr>SilenceMinDuration = Second, StepDuration = 30 * Millisecond\<rparr>,
           samples = [0, 0, 0, 0, 0, 0, 9]\<rparr>)) * 2 < 2
   \<and> countSilencesAtStart 1 [0, 0, 0 :: nat] = 3
   \<and> Add (\<lambda>w. length (filter (\<lambda>x. x \<noteq> 0) w))
        (NewSilenceDetector \<lparr>SilenceMinDuration = 0, StepDuration = 0\<rparr>)
        [0, 0, 0, 0, 0, 0, 9] 2 0
      = Inr ([], \<lparr>audioLevels = [0, 0, 0 :: nat],
           c = \<lparr>SilenceMinDuration = Second, StepDuration = 30 * Millisecond\<rparr>,
           samples = [0, 0, 0, 0, 0, 0, 9]\<rparr>)
   \<and> Add (\<lambda>w. length (filter (\<lambda>x. x \<noteq> 0) w))
        \<lparr>audioLevels = [0, 0, 0 :: nat],
           c = \<lparr>SilenceMinDuration = Second, StepDuration = 30 * Millisecond\<rparr>,
           samples = [0, 0, 0, 0, 0, 0, 9]\<rparr> [] 2 1
      = Inr ([], \<lparr>audioLevels = [0, 0, 0 :: nat],
           c = \<lparr>SilenceMinDuration = Second, StepDuration = 30 * Millisecond\<rparr>,
           samples = [0, 0, 0, 0, 0, 0, 9]\<rparr>)
   \<and> Add (\<lambda>w. length (filter (\<lambda>x. x \<noteq> 0) w))
        \<lparr>audioLevels = [0, 0, 0 :: nat],
           c = \<lparr>SilenceMinDuration = Second, StepDuration = 30 * Millisecond\<rparr>,
           samples = [0, 0, 0, 0, 0, 0, 9]\<rparr> [] 2 0
      = Add (\<lambda>w. length (filter (\<lambda>x. x \<noteq> 0) w))
        \<lparr>audioLevels = [0, 0, 0 :: nat],
           c = \<lparr>SilenceMinDuration = Second, StepDuration = 30 * Millisecond\<rparr>,
           samples = [0, 0, 0, 0, 0, 0, 9]\<rparr> [] 2 1"
proof -
  let ?AL = "\<lambda>w :: 32 word list. length (filter (\<lambda>x. x \<noteq> 0) w)"
  let ?cfg = "\<lparr>SilenceMinDuration = Second, StepDuration = 30 * Millisecond\<rparr>"
  let ?E = "NewSilenceDetector \<lparr>SilenceMinDuration = 0, StepDuration = 0\<rparr> :: nat SilenceDetector"
  let ?D = "\<lparr>audioLevels = [0, 0, 0 :: nat], c = ?cfg, samples = [0, 0, 0, 0, 0, 0, 9]\<rparr>"
  have h1: "(1::int) \<le> 2" by simp
  have h2: "int (length (audioLevels ?E)) * 2 < 2 ^ 63"
    by (simp add: NewSilenceDetector_def Reset_def Let_def)
  have h3: "int (length (audioLevels ?D)) * 2 < 2 ^ 63" by simp
  have h4: "int (length (samples ?D @ [])) - int (length (audioLevels ?D)) * 2 < 2" by simp
  have h5: "countSilencesAtStart 1 [0, 0, 0 :: nat] = 3" by simp
  have h6: "Add ?AL ?E [0, 0, 0, 0, 0, 0, 9] 2 0 = Inr ([], ?D)" by code_simp
  from no_reclassification_without_new_window [OF h1 h2, of "[0, 0, 0, 0, 0, 0, 9]" ?AL 0 1] h6
  have h7: "Add ?AL ?D [] 2 1 = Inr ([], ?D)" by blast
  from no_reclassification_without_new_window [OF h1 h3, of "[]" ?AL 1 0] h4
  have h8: "Add ?AL ?D [] 2 0 = Add ?AL ?D [] 2 1" by blast
  show ?thesis by (rule conjI h1 h2 h3 h4 h5 h6 h7 h8)+
qed

text \<open>
  The claim as stated fails for a chunk that is shorter than a window and not empty: with
  the samples left over it can complete a window. On a new detector with windows of 2
  samples, a first call with 7 samples and the threshold 0 leaves three levels 0 and one
  sample over. A second call supplies one sample, fewer than a window, with the threshold
  1: it completes a fourth window, finds three silences at the start under its own
  threshold and drops two of them, with their 4 samples.
\<close>

theorem chunk_shorter_than_a_window_counterexample:
  "int (length [9 :: 32 word]) < 2
   \<and> Add (\<lambda>w. length (filter (\<lambda>x. x \<noteq> 0) w))
        (NewSilenceDetector \<lparr>SilenceMinDuration = 0, StepDuration = 0\<rparr>)
        [0, 0, 0, 0, 0, 0, 9] 2 0
      = Inr ([], \<lparr>audioLevels = [0, 0, 0 :: nat],
           c = \<lparr>SilenceMinDuration = Second, StepDuration = 30 * Millisecond\<rparr>,
           samples = [0, 0, 0, 0, 0, 0, 9]\<rparr>)
   \<and> Add (\<lambda>w. length (filter (\<lambda>x. x \<noteq> 0) w))
        \<lparr>audioLevels = [0, 0, 0 :: nat],
           c = \<lparr>SilenceMinDuration = Second, StepDuration = 30 * Millisecond\<rparr>,
           samples = [0, 0, 0, 0, 0, 0, 9]\<rparr> [9] 2 1
      = Inr ([], \<lparr>audioLevels = [0, 2 :: nat],
           c = \<lparr>SilenceMinDuration = Second, StepDuration = 30 * Millisecond\<rparr>,
           samples = [0, 0, 9, 9]\<rparr>)"
  by code_simp

section \<open>The silence at the start is dropped but for one window\<close>

text \<open>
  Claim C5. In a call that analyses at least one new window (of at least one sample), let
  \<open>d1\<close> be the detector with the new levels and \<open>k\<close> the number of its levels below the
  threshold at the start, \<open>k \<ge> 2\<close>. Then what the call returns and what it keeps are
  together the samples without their first \<open>(k - 1) * n\<close>: exactly the first \<open>k - 1\<close> windows
  are dropped, and no segment contains any of them. The levels kept are the levels of
  \<open>d1\<close> without the first \<open>k - 1\<close> and without those of the \<open>m\<close> windows returned in
  segments. The window that follows the dropped ones, window \<open>k - 1\<close>, is below the
  threshold and the one after it, if there is one, is not: one silent window of padding
  stays in front of the rest. The call returns when \<open>SilenceMinDuration\<close> is positive.
\<close>

theorem leading_silence_pruned:
  assumes "1 \<le> n"
    and "\<not> int (length (samples d @ smpls)) - int (length (audioLevels d)) * n < n"
    and "computeAudioLevels AL n (int (length (audioLevels d)) * n)
           ((int (length (samples d @ smpls)) - int (length (audioLevels d)) * n) div n) 0
           (d\<lparr>samples := samples d @ smpls\<rparr>) = Inr d1"
    and "2 \<le> countSilencesAtStart thr (audioLevels d1)"
  shows "(0 < sint (SilenceMinDuration (c d)) \<longrightarrow> (\<exists>r. Add AL d smpls n thr = Inr r))
    \<and> (\<forall>vs d'. Add AL d smpls n thr = Inr (vs, d') \<longrightarrow>
         (let k = countSilencesAtStart thr (audioLevels d1) in
            concat vs @ samples d' = drop (nat ((k - 1) * n)) (samples d @ smpls)
          \<and> (\<exists>m. length (concat vs) = m * nat n
                \<and> audioLevels d' = drop (nat (k - 1) + m) (audioLevels d1))
          \<and> audioLevels d1 ! nat (k - 1) < thr
          \<and> (k < int (length (audioLevels d1)) \<longrightarrow> \<not> audioLevels d1 ! nat k < thr)))"
proof -
  obtain N where N: "n = int N" "1 \<le> N" using assms(1) by (cases n) auto
  define k where "k = countSilencesAtStart thr (audioLevels d1)"
  have en: "length (audioLevels d) * N + N \<le> length (samples d @ smpls)"
    using assms(2) enough_int [OF N(2), of d smpls] by (simp add: N(1))
  then have le: "length (audioLevels d) * N \<le> length (samples d @ smpls)" by simp
  have d1: "d1 = newLevels AL N d smpls"
    using assms(3) computeAudioLevels_newLevels [OF N(2) le, of AL] by (simp add: N(1))
  have sz1: "length (audioLevels d1) * N \<le> length (samples d1)"
    unfolding d1 by (rule newLevels_size [OF N(2) le])
  have s1: "samples d1 = samples d @ smpls" by (simp add: d1 newLevels_def)
  let ?d2 = "pruneStart thr N d1"
  have sz2: "length (audioLevels ?d2) * N \<le> length (samples ?d2)"
    by (rule pruneStart_size [OF sz1])
  have k2: "2 \<le> k" using assms(4) by (simp add: k_def)
  have kN: "nat ((k - 1) * n) = nat (k - 1) * N"
    using k2 by (simp add: N(1) nat_mult_distrib)
  have 1: "0 < sint (SilenceMinDuration (c d)) \<longrightarrow> (\<exists>r. Add AL d smpls n thr = Inr r)"
    using Add_returns [OF N(2), of d AL smpls thr] by (simp add: N(1) tooManySilences_0)
  have pad: "audioLevels d1 ! nat (k - 1) < thr"
    using k2 by (intro countSilencesAtStart_silent) (simp add: k_def)
  have nxt: "k < int (length (audioLevels d1)) \<longrightarrow> \<not> audioLevels d1 ! nat k < thr"
    using countSilencesAtStart_loud [of thr "audioLevels d1"] by (simp add: k_def)
  have 2: "concat vs @ samples d' = drop (nat ((k - 1) * n)) (samples d @ smpls)
          \<and> (\<exists>m. length (concat vs) = m * nat n
                \<and> audioLevels d' = drop (nat (k - 1) + m) (audioLevels d1))"
    if a: "Add AL d smpls n thr = Inr (vs, d')" for vs d'
  proof -
    from Add_Inr_cutOff [OF N(2) en] a have "cutOff N ?d2 [] d' vs" by (simp add: N(1) d1)
    from cutOff_samples [OF this sz2] obtain m where
      m: "concat vs @ samples d' = samples ?d2" "length (concat vs) = m * N"
        "audioLevels d' = drop m (audioLevels ?d2)"
      by blast
    have "samples ?d2 = drop (nat (k - 1) * N) (samples d @ smpls)"
      by (simp add: pruneStart_def k_def s1)
    moreover have "audioLevels ?d2 = drop (nat (k - 1)) (audioLevels d1)"
      by (simp add: pruneStart_def k_def)
    ultimately show ?thesis using m kN by (auto simp: N(1) add.commute)
  qed
  show ?thesis unfolding Let_def k_def [symmetric] using 1 2 pad nxt by blast
qed

theorem leading_silence_pruned_witness:
  "(1::int) \<le> 2
   \<and> \<not> int (length (samples (NewSilenceDetector \<lparr>SilenceMinDuration = 0, StepDuration = 0\<rparr>
                :: nat SilenceDetector) @ [0, 0, 0, 0, 0, 0, 0, 0, 0, 0, 5, 5, 5, 5]))
         - int (length (audioLevels (NewSilenceDetector \<lparr>SilenceMinDuration = 0, StepDuration = 0\<rparr>
                :: nat SilenceDetector))) * 2 < 2
   \<and> computeAudioLevels (\<lambda>w. length (filter (\<lambda>x. x \<noteq> 0) w)) 2
         (int (length (audioLevels (NewSilenceDetector \<lparr>SilenceMinDuration = 0, StepDuration = 0\<rparr>
                :: nat SilenceDetector))) * 2)
         ((int (length (samples (NewSilenceDetector \<lparr>SilenceMinDuration = 0, StepDuration = 0\<rparr>
                :: nat SilenceDetector) @ [0, 0, 0, 0, 0, 0, 0, 0, 0, 0, 5, 5, 5, 5]))
           - int (length (audioLevels (NewSilenceDetector \<lparr>SilenceMinDuration = 0, StepDuration = 0\<rparr>
                :: nat SilenceDetector))) * 2) div 2) 0
         ((NewSilenceDetector \<lparr>SilenceMinDuration = 0, StepDuration = 0\<rparr>)
            \<lparr>samples := samples (NewSilenceDetector \<lparr>SilenceMinDuration = 0, StepDuration = 0\<rparr>
                :: nat SilenceDetector) @ [0, 0, 0, 0, 0, 0, 0, 0, 0, 0, 5, 5, 5, 5]\<rparr>)
       = Inr \<lparr>audioLevels = [0, 0, 0, 0, 0, 2, 2],
              c = \<lparr>SilenceMinDuration = Second, StepDuration = 30 * Millisecond\<rparr>,
              samples = [0, 0, 0, 0, 0, 0, 0, 0, 0, 0, 5, 5, 5, 5]\<rparr>
   \<and> countSilencesAtStart 1 [0, 0, 0, 0, 0, 2, 2 :: nat] = 5
   \<and> 0 < sint (SilenceMinDuration (c (NewSilenceDetector \<lparr>SilenceMinDuration = 0, StepDuration = 0\<rparr>
                :: nat SilenceDetector)))
   \<and> Add (\<lambda>w. length (filter (\<lambda>x. x \<noteq> 0) w))
         (NewSilenceDetector \<lparr>SilenceMinDuration = 0, StepDuration = 0\<rparr>)
         [0, 0, 0, 0, 0, 0, 0, 0, 0, 0, 5, 5, 5, 5] 2 1
       = Inr ([], \<lparr>audioLevels = [0, 2, 2],
              c = \<lparr>SilenceMinDuration = Second, StepDuration = 30 * Millisecond\<rparr>,
              samples = [0, 0, 5, 5, 5, 5]\<rparr>)
   \<and> concat [] @ [0, 0, 5, 5, 5, 5 :: 32 word]
       = drop (nat ((5 - 1) * 2)) ([] @ [0, 0, 0, 0, 0, 0, 0, 0, 0, 0, 5, 5, 5, 5])
   \<and> (\<exists>m. length (concat ([] :: 32 word list list)) = m * nat 2
          \<and> [0, 2, 2 :: nat] = drop (nat (5 - 1) + m) [0, 0, 0, 0, 0, 2, 2])
   \<and> [0, 0, 0, 0, 0, 2, 2 :: nat] ! nat (5 - 1) < 1
   \<and> \<not> [0, 0, 0, 0, 0, 2, 2 :: nat] ! nat 5 < 1"
proof -
  let ?AL = "\<lambda>w :: 32 word list. length (filter (\<lambda>x. x \<noteq> 0) w)"
  let ?D = "NewSilenceDetector \<lparr>SilenceMinDuration = 0, StepDuration = 0\<rparr> :: nat SilenceDetector"
  let ?S = "[0, 0, 0, 0, 0, 0, 0, 0, 0, 0, 5, 5, 5, 5] :: 32 word list"
  let ?cfg = "\<lparr>SilenceMinDuration = Second, StepDuration = 30 * Millisecond\<rparr>"
  let ?D1 = "\<lparr>audioLevels = [0, 0, 0, 0, 0, 2, 2 :: nat], c = ?cfg, samples = ?S\<rparr>"
  let ?D' = "\<lparr>audioLevels = [0, 2, 2 :: nat], c = ?cfg, samples = [0, 0, 5, 5, 5, 5]\<rparr>"
  have h1: "(1::int) \<le> 2" by simp
  have h2: "\<not> int (length (samples ?D @ ?S)) - int (length (audioLevels ?D)) * 2 < 2"
    by code_simp
  have h3: "computeAudioLevels ?AL 2 (int (length (audioLevels ?D)) * 2)
      ((int (length (samples ?D @ ?S)) - int (length (audioLevels ?D)) * 2) div 2) 0
      (?D\<lparr>samples := samples ?D @ ?S\<rparr>) = Inr ?D1"
    by code_simp
  have k: "countSilencesAtStart 1 [0, 0, 0, 0, 0, 2, 2 :: nat] = 5" by simp
  have h4: "2 \<le> countSilencesAtStart 1 (audioLevels ?D1)" by (simp add: k)
  have h5: "0 < sint (SilenceMinDuration (c ?D))" by code_simp
  have h6: "Add ?AL ?D ?S 2 1 = Inr ([], ?D')" by code_simp
  from leading_silence_pruned [OF h1 h2 h3 h4] h6
  have "let k = countSilencesAtStart 1 (audioLevels ?D1) in
            concat [] @ samples ?D' = drop (nat ((k - 1) * 2)) (samples ?D @ ?S)
          \<and> (\<exists>m. length (concat ([] :: 32 word list list)) = m * nat 2
                \<and> audioLevels ?D' = drop (nat (k - 1) + m) (audioLevels ?D1))
          \<and> audioLevels ?D1 ! nat (k - 1) < 1
          \<and> (k < int (length (audioLevels ?D1)) \<longrightarrow> \<not> audioLevels ?D1 ! nat k < 1)"
    by blast
  then have "concat [] @ [0, 0, 5, 5, 5, 5 :: 32 word]
       = drop (nat ((5 - 1) * 2)) ([] @ ?S)
     \<and> (\<exists>m. length (concat ([] :: 32 word list list)) = m * nat 2
          \<and> [0, 2, 2 :: nat] = drop (nat (5 - 1) + m) [0, 0, 0, 0, 0, 2, 2])
     \<and> [0, 0, 0, 0, 0, 2, 2 :: nat] ! nat (5 - 1) < 1
     \<and> \<not> [0, 0, 0, 0, 0, 2, 2 :: nat] ! nat 5 < 1"
    by (simp add: k)
  then show ?thesis using h1 h2 h3 k h5 h6 by blast
qed

section \<open>A window size that is not positive\<close>

text \<open>
  Claim C7 says that \<open>Add\<close> fails fast with an explicit \<open>InvalidWindowSize\<close> condition when
  the window size is 0 or negative. The code has no such condition and no check of the
  window size. As amended, for a window size that is 0 or negative, \<open>Add\<close> computes no
  level (the loop of line 63 does not run; for the window size 0 this is the conversion of
  amd64, see \<open>levelsToCompute\<close>) and goes on to the pruning and the scan:
  \<^item> with a negative window size it either returns no segment, having only appended the
    chunk, or panics on a negative slice bound (line 85) or a negative length (line 123);
  \<^item> with the window size 0 it returns, unless \<open>SilenceMinDuration\<close> is not positive, when
    it may panic on the slice bound of line 128; when it returns, the samples are the ones
    before the call followed by the chunk, the levels are the ones before the call
    without some of the first, and the segments are all empty: levels are pruned and cut,
    samples are not;
  \<^item> it returns with only the chunk appended whenever at most one level is buffered, as on
    a new or reset detector.

  The product of line 52 and the difference of line 55 are taken to fit in Go's 64-bit
  \<open>int\<close>, as they do for a window size of 0 and for any window size on a new or reset
  detector.
\<close>

theorem Add_window_not_positive:
  assumes "n \<le> 0"
    and "- (2 ^ 63) \<le> int (length (audioLevels d)) * n"
    and "int (length (samples d @ smpls)) - int (length (audioLevels d)) * n < 2 ^ 63"
  shows "(n < 0 \<longrightarrow>
            Add AL d smpls n thr = Inr ([], d\<lparr>samples := samples d @ smpls\<rparr>)
          \<or> Add AL d smpls n thr = Inl SliceBoundsOutOfRange
          \<or> Add AL d smpls n thr = Inl MakeLenOutOfRange)
    \<and> (n = 0 \<longrightarrow>
            (\<exists>vs d' m. Add AL d smpls n thr = Inr (vs, d')
                \<and> concat vs = []
                \<and> audioLevels d' = drop m (audioLevels d)
                \<and> samples d' = samples d @ smpls
                \<and> c d' = c d)
          \<or> (Add AL d smpls n thr = Inl SliceBoundsOutOfRange
                \<and> sint (SilenceMinDuration (c d)) \<le> 0))
    \<and> (length (audioLevels d) \<le> 1 \<longrightarrow>
          Add AL d smpls n thr = Inr ([], d\<lparr>samples := samples d @ smpls\<rparr>))"
proof (cases "n = 0")
  case False
  then have "n < 0" using assms(1) by simp
  from Add_negative_cases [OF this, of AL d smpls thr] False show ?thesis by blast
next
  case True
  have 2: "(\<exists>vs d' m. Add AL d smpls 0 thr = Inr (vs, d')
                \<and> concat vs = []
                \<and> audioLevels d' = drop m (audioLevels d)
                \<and> samples d' = samples d @ smpls
                \<and> c d' = c d)
          \<or> (Add AL d smpls 0 thr = Inl SliceBoundsOutOfRange
                \<and> sint (SilenceMinDuration (c d)) \<le> 0)"
  proof (cases "Add AL d smpls 0 thr")
    case (Inl e)
    with Add_zero_Inl [OF Inl] show ?thesis by simp
  next
    case (Inr r)
    obtain vs d' where r: "r = (vs, d')" by (cases r)
    from Add_zero_kept [of AL d smpls thr vs d'] Inr r show ?thesis by auto
  qed
  have 3: "length (audioLevels d) \<le> 1 \<longrightarrow>
          Add AL d smpls 0 thr = Inr ([], d\<lparr>samples := samples d @ smpls\<rparr>)"
    by (simp add: Add_zero_short)
  show ?thesis using True 2 3 by simp
qed

text \<open>
  The claim as stated fails: on a new detector, with a window size of 0 (a sample rate of
  0 to 33 with the default step of 30 ms) or of \<open>-30\<close> (a sample rate of \<open>-1000\<close>),
  \<open>Add\<close> returns normally, with no segment and the chunk buffered.
\<close>

theorem Add_window_not_positive_counterexample:
  "Add (\<lambda>w. length (filter (\<lambda>x. x \<noteq> 0) w))
     (NewSilenceDetector \<lparr>SilenceMinDuration = 0, StepDuration = 0\<rparr>) [1, 2, 3] 0 1
   = Inr ([], \<lparr>audioLevels = [],
                 c = \<lparr>SilenceMinDuration = Second, StepDuration = 30 * Millisecond\<rparr>,
                 samples = [1, 2, 3]\<rparr>)
   \<and> Add (\<lambda>w. length (filter (\<lambda>x. x \<noteq> 0) w))
     (NewSilenceDetector \<lparr>SilenceMinDuration = 0, StepDuration = 0\<rparr>) [1, 2, 3] (- 30) 1
   = Inr ([], \<lparr>audioLevels = [],
                 c = \<lparr>SilenceMinDuration = Second, StepDuration = 30 * Millisecond\<rparr>,
                 samples = [1, 2, 3]\<rparr>)"
  by code_simp

text \<open>
  With the window size 0, a detector of five levels, the three in the middle below the
  threshold and as many as \<open>SilenceMinDuration\<close> asks for: the call returns one empty
  segment and drops the first level, and no sample.
\<close>

theorem Add_window_not_positive_witness:
  "(0::int) \<le> 0
   \<and> - (2 ^ 63) \<le> int (length (audioLevels \<lparr>audioLevels = [2, 0, 0, 0, 2 :: nat],
           c = \<lparr>SilenceMinDuration = 90 * Millisecond, StepDuration = 30 * Millisecond\<rparr>,
           samples = [5, 5, 0, 0, 0, 0, 0, 0, 5, 5]\<rparr>)) * 0
   \<and> int (length (samples \<lparr>audioLevels = [2, 0, 0, 0, 2 :: nat],
           c = \<lparr>SilenceMinDuration = 90 * Millisecond, StepDuration = 30 * Millisecond\<rparr>,
           samples = [5, 5, 0, 0, 0, 0, 0, 0, 5, 5]\<rparr> @ [7]))
       - int (length (audioLevels \<lparr>audioLevels = [2, 0, 0, 0, 2 :: nat],
           c = \<lparr>SilenceMinDuration = 90 * Millisecond, StepDuration = 30 * Millisecond\<rparr>,
           samples = [5, 5, 0, 0, 0, 0, 0, 0, 5, 5]\<rparr>)) * 0 < 2 ^ 63
   \<and> (\<exists>vs d' m. Add (\<lambda>w. length (filter (\<lambda>x. x \<noteq> 0) w))
          \<lparr>audioLevels = [2, 0, 0, 0, 2 :: nat],
             c = \<lparr>SilenceMinDuration = 90 * Millisecond, StepDuration = 30 * Millisecond\<rparr>,
             samples = [5, 5, 0, 0, 0, 0, 0, 0, 5, 5]\<rparr> [7] 0 1 = Inr (vs, d')
        \<and> concat vs = []
        \<and> audioLevels d' = drop m [2, 0, 0, 0, 2]
        \<and> samples d' = [5, 5, 0, 0, 0, 0, 0, 0, 5, 5, 7]
        \<and> c d' = \<lparr>SilenceMinDuration = 90 * Millisecond, StepDuration = 30 * Millisecond\<rparr>)
   \<and> Add (\<lambda>w. length (filter (\<lambda>x. x \<noteq> 0) w))
        \<lparr>audioLevels = [2, 0, 0, 0, 2 :: nat],
           c = \<lparr>SilenceMinDuration = 90 * Millisecond, StepDuration = 30 * Millisecond\<rparr>,
           samples = [5, 5, 0, 0, 0, 0, 0, 0, 5, 5]\<rparr> [7] 0 1
      = Inr ([[]], \<lparr>audioLevels = [0, 0, 0, 2 :: nat],
           c = \<lparr>SilenceMinDuration = 90 * Millisecond, StepDuration = 30 * Millisecond\<rparr>,
           samples = [5, 5, 0, 0, 0, 0, 0, 0, 5, 5, 7]\<rparr>)"
proof -
  let ?AL = "\<lambda>w :: 32 word list. length (filter (\<lambda>x. x \<noteq> 0) w)"
  let ?cfg = "\<lparr>SilenceMinDuration = 90 * Millisecond, StepDuration = 30 * Millisecond\<rparr>"
  let ?D = "\<lparr>audioLevels = [2, 0, 0, 0, 2 :: nat], c = ?cfg,
      samples = [5, 5, 0, 0, 0, 0, 0, 0, 5, 5]\<rparr>"
  let ?D' = "\<lparr>audioLevels = [0, 0, 0, 2 :: nat], c = ?cfg,
      samples = [5, 5, 0, 0, 0, 0, 0, 0, 5, 5, 7]\<rparr>"
  have h1: "(0::int) \<le> 0" by simp
  have h2: "- (2 ^ 63) \<le> int (length (audioLevels ?D)) * 0" by simp
  have h3: "int (length (samples ?D @ [7])) - int (length (audioLevels ?D)) * 0 < 2 ^ 63"
    by simp
  have h4: "Add ?AL ?D [7] 0 1 = Inr ([[]], ?D')" by code_simp
  from Add_window_not_positive [OF h1 h2 h3, of ?AL 1] h4
  have h5: "\<exists>vs d' m. Add ?AL ?D [7] 0 1 = Inr (vs, d')
        \<and> concat vs = []
        \<and> audioLevels d' = drop m [2, 0, 0, 0, 2]
        \<and> samples d' = [5, 5, 0, 0, 0, 0, 0, 0, 5, 5, 7]
        \<and> c d' = ?cfg"
    by simp
  show ?thesis by (rule conjI h1 h2 h3 h4 h5)+
qed

section \<open>Two silences in one call\<close>

text \<open>
  Claim C2 says that after a cut the scan goes on from the window right after the silence,
  so that a call whose buffer holds two silences that are long enough, each after loud
  audio, returns two segments. The scan of lines 96 to 108 keeps its index \<open>i\<close> when
  \<open>processSilencesInTheMiddle\<close> cuts the front off the buffers, so it goes on
  \<open>i - silencesCount\<close> windows further than that. Here the windows are loud, loud, three
  silent, loud, loud, three silent, loud, of one sample each, and three silent windows are
  enough (90 ms with steps of 30 ms). After the cut at index 5 the scan goes on at index 6
  of the cut buffer, which is window 8 of the chunk: it counts only two windows of the
  second silence, and the call returns one segment.
\<close>

theorem two_silence_runs_one_segment:
  "tooManySilences \<lparr>SilenceMinDuration = 90 * Millisecond, StepDuration = 30 * Millisecond\<rparr> 3
   \<and> Add (\<lambda>w. length (filter (\<lambda>x. x \<noteq> 0) w))
        (NewSilenceDetector
           \<lparr>SilenceMinDuration = 90 * Millisecond, StepDuration = 30 * Millisecond\<rparr>)
        [5, 5, 0, 0, 0, 5, 5, 0, 0, 0, 5] 1 1
      = Inr ([[5, 5]],
             \<lparr>audioLevels = [0, 0, 0, 1, 1, 0, 0, 0, 1],
                c = \<lparr>SilenceMinDuration = 90 * Millisecond, StepDuration = 30 * Millisecond\<rparr>,
                samples = [0, 0, 0, 5, 5, 0, 0, 0, 5]\<rparr>)"
  by code_simp

section \<open>What is lost is the silence dropped at the start\<close>

text \<open>
  Claim C3 says that the segments returned, in order, followed by the samples left in the
  buffer, are the chunks fed in without the silences that were long enough to be
  confirmed. What the code drops is decided by lines 73 to 86 alone, which do not look at
  \<open>SilenceMinDuration\<close>. As amended: for any sequence of \<open>Add\<close> calls with one window size
  of at least one sample, the chunks fed in, concatenated, are, call after call, the
  samples that the call dropped at the start of the buffer followed by the segments that
  the call returned, and after the last call the samples left in the buffer. What a call
  drops is a whole number of windows, each with a level below the threshold of that call
  (all but the last of the windows below the threshold at the start of the buffer),
  however short that silence is. Nothing else is lost. No call panics when
  \<open>SilenceMinDuration\<close> is positive.
\<close>

theorem no_data_loss_but_for_pruned_silence:
  assumes "1 \<le> n"
  shows "(0 < sint (SilenceMinDuration (c d)) \<longrightarrow> (\<exists>r. AddAll AL (Reset d) calls n = Inr r))
    \<and> (\<forall>outs d'. AddAll AL (Reset d) calls n = Inr (outs, d') \<longrightarrow>
          concat (map fst calls)
            = concat (map (\<lambda>(pruned, vs). pruned @ concat vs) outs) @ samples d'
        \<and> list_all2 (\<lambda>(smpls, thr) (pruned, vs).
              \<exists>k. length pruned = k * nat n
                \<and> (\<forall>j<k. AL (take (nat n) (drop (j * nat n) pruned)) < thr))
            calls outs)"
proof -
  obtain N where N: "n = int N" "1 \<le> N" using assms by (cases n) auto
  have cR: "c (Reset d) = c d" and sR: "samples (Reset d) = []" by (simp_all add: Reset_def)
  have 1: "0 < sint (SilenceMinDuration (c d)) \<longrightarrow> (\<exists>r. AddAll AL (Reset d) calls n = Inr r)"
    using AddAll_returns [OF N(2), of "Reset d" AL calls]
    by (simp add: N(1) cR tooManySilences_0)
  have 2: "concat (map fst calls)
            = concat (map (\<lambda>(pruned, vs). pruned @ concat vs) outs) @ samples d'"
    if "AddAll AL (Reset d) calls n = Inr (outs, d')" for outs d'
    using AddAll_conserves [OF N(2), of AL "Reset d" calls outs d'] that
    by (simp add: N(1) sR)
  have 3: "list_all2 (\<lambda>(smpls, thr) (pruned, vs).
              \<exists>k. length pruned = k * nat n
                \<and> (\<forall>j<k. AL (take (nat n) (drop (j * nat n) pruned)) < thr))
            calls outs"
    if "AddAll AL (Reset d) calls n = Inr (outs, d')" for outs d'
    using AddAll_pruned_silent [OF lockStep_Reset N(2), of AL d calls outs d'] that
    by (simp add: N(1))
  show ?thesis using 1 2 3 by blast
qed

theorem no_data_loss_but_for_pruned_silence_witness:
  "(1::int) \<le> 2
   \<and> 0 < sint (SilenceMinDuration (c (NewSilenceDetector
          \<lparr>SilenceMinDuration = 90 * Millisecond, StepDuration = 30 * Millisecond\<rparr>
          :: nat SilenceDetector)))
   \<and> AddAll (\<lambda>w. length (filter (\<lambda>x. x \<noteq> 0) w))
        (Reset (NewSilenceDetector
          \<lparr>SilenceMinDuration = 90 * Millisecond, StepDuration = 30 * Millisecond\<rparr>))
        [([5, 5, 5, 5, 0, 0, 0], 1), ([0, 0, 0, 5, 5, 5], 1), ([0, 0, 0, 0, 0, 0, 0, 0, 3], 1)] 2
      = Inr ([([], []), ([], [[5, 5, 5, 5]]), ([0, 0, 0, 0], [[0, 0, 5, 5, 5, 0]])],
             \<lparr>audioLevels = [0, 0, 0, 1],
                c = \<lparr>SilenceMinDuration = 90000000, StepDuration = 30000000\<rparr>,
                samples = [0, 0, 0, 0, 0, 0, 0, 3]\<rparr>)
   \<and> concat (map fst [([5, 5, 5, 5, 0, 0, 0 :: 32 word], 1 :: nat), ([0, 0, 0, 5, 5, 5], 1),
          ([0, 0, 0, 0, 0, 0, 0, 0, 3], 1)])
       = concat (map (\<lambda>(pruned, vs). pruned @ concat vs)
           [([], []), ([], [[5, 5, 5, 5]]), ([0, 0, 0, 0], [[0, 0, 5, 5, 5, 0]])])
         @ [0, 0, 0, 0, 0, 0, 0, 3]
   \<and> list_all2 (\<lambda>(smpls, thr) (pruned, vs).
          \<exists>k. length pruned = k * nat 2
            \<and> (\<forall>j<k. length (filter (\<lambda>x. x \<noteq> 0) (take (nat 2) (drop (j * nat 2) pruned))) < thr))
        [([5, 5, 5, 5, 0, 0, 0 :: 32 word], 1 :: nat), ([0, 0, 0, 5, 5, 5], 1),
          ([0, 0, 0, 0, 0, 0, 0, 0, 3], 1)]
        ([([], []), ([], [[5, 5, 5, 5]]), ([0, 0, 0, 0], [[0, 0, 5, 5, 5, 0]])]
          :: (32 word list \<times> 32 word list list) list)"
proof -
  let ?AL = "\<lambda>w :: 32 word list. length (filter (\<lambda>x. x \<noteq> 0) w)"
  let ?D = "NewSilenceDetector
      \<lparr>SilenceMinDuration = 90 * Millisecond, StepDuration = 30 * Millisecond\<rparr> :: nat SilenceDetector"
  let ?calls = "[([5, 5, 5, 5, 0, 0, 0], 1), ([0, 0, 0, 5, 5, 5], 1),
      ([0, 0, 0, 0, 0, 0, 0, 0, 3], 1)] :: (32 word list \<times> nat) list"
  let ?outs = "[([], []), ([], [[5, 5, 5, 5]]), ([0, 0, 0, 0], [[0, 0, 5, 5, 5, 0]])]
      :: (32 word list \<times> 32 word list list) list"
  let ?D' = "\<lparr>audioLevels = [0, 0, 0, 1 :: nat],
                c = \<lparr>SilenceMinDuration = 90000000, StepDuration = 30000000\<rparr>,
                samples = [0, 0, 0, 0, 0, 0, 0, 3]\<rparr>"
  have h1: "(1::int) \<le> 2" by simp
  have h2: "0 < sint (SilenceMinDuration (c ?D))" by code_simp
  have h3: "AddAll ?AL (Reset ?D) ?calls 2 = Inr (?outs, ?D')"
    by code_simp
  from no_data_loss_but_for_pruned_silence [OF h1, of ?D ?AL ?calls] h3
  have "concat (map fst ?calls)
            = concat (map (\<lambda>(pruned, vs). pruned @ concat vs) ?outs) @ samples ?D'
        \<and> list_all2 (\<lambda>(smpls, thr) (pruned, vs).
              \<exists>k. length pruned = k * nat 2
                \<and> (\<forall>j<k. ?AL (take (nat 2) (drop (j * nat 2) pruned)) < thr))
            ?calls ?outs"
    by blast
  then have c1: "concat (map fst ?calls)
            = concat (map (\<lambda>(pruned, vs). pruned @ concat vs) ?outs) @ [0, 0, 0, 0, 0, 0, 0, 3]"
    and c2: "list_all2 (\<lambda>(smpls, thr) (pruned, vs).
              \<exists>k. length pruned = k * nat 2
                \<and> (\<forall>j<k. ?AL (take (nat 2) (drop (j * nat 2) pruned)) < thr))
            ?calls ?outs"
    by simp_all
  from c2 have c3: "list_all2 (\<lambda>(smpls, thr) (pruned, vs).
          \<exists>k. length pruned = k * nat 2
            \<and> (\<forall>j<k. length (filter (\<lambda>x. x \<noteq> 0) (take (nat 2) (drop (j * nat 2) pruned))) < thr))
        ?calls ?outs"
    by simp
  show ?thesis by (rule conjI h1 h2 h3 c1 c3)+
qed

text \<open>
  The claim as stated fails: with the default minimum duration of one second and steps of
  30 ms, a chunk of two silent windows and a loud one loses its first window, although
  no silence of one, two or three windows is long enough to be confirmed.
\<close>

theorem short_leading_silence_lost_counterexample:
  "AddAll (\<lambda>w. length (filter (\<lambda>x. x \<noteq> 0) w))
     (Reset (NewSilenceDetector \<lparr>SilenceMinDuration = 0, StepDuration = 0\<rparr>))
     [([0, 0, 5], 1)] 1
   = Inr ([([0], [])],
          \<lparr>audioLevels = [0, 1],
             c = \<lparr>SilenceMinDuration = Second, StepDuration = 30 * Millisecond\<rparr>,
             samples = [0, 5]\<rparr>)
   \<and> concat ([] :: 32 word list list) @ [0, 5] \<noteq> [0, 0, 5]
   \<and> \<not> tooManySilences \<lparr>SilenceMinDuration = Second, StepDuration = 30 * Millisecond\<rparr> 1
   \<and> \<not> tooManySilences \<lparr>SilenceMinDuration = Second, StepDuration = 30 * Millisecond\<rparr> 2
   \<and> \<not> tooManySilences \<lparr>SilenceMinDuration = Second, StepDuration = 30 * Millisecond\<rparr> 3"
  by code_simp

section \<open>The scenario of ten windows\<close>

text \<open>
  Claim C4. A new detector with steps of 30 ms and a minimum silence of 90 ms, windows of
  30 samples (the window size for a sample rate of 1000), and one chunk of ten windows:
  windows 0 and 1 not below the threshold, windows 2 to 4 below it, windows 5 to 9 not
  below it. Whatever the level function, the samples and the threshold are, \<open>Add\<close>
  returns exactly one segment, the 60 samples of windows 0 and 1, and afterwards the
  buffers hold windows 2 to 9 and their levels.
\<close>

theorem scenario_one_segment:
  assumes len: "length w0 = 30" "length w1 = 30" "length w2 = 30" "length w3 = 30"
      "length w4 = 30" "length w5 = 30" "length w6 = 30" "length w7 = 30" "length w8 = 30"
      "length w9 = 30"
    and loud: "\<not> AL w0 < thr" "\<not> AL w1 < thr"
    and silent: "AL w2 < thr" "AL w3 < thr" "AL w4 < thr"
    and loud': "\<not> AL w5 < thr" "\<not> AL w6 < thr" "\<not> AL w7 < thr" "\<not> AL w8 < thr"
      "\<not> AL w9 < thr"
  shows "Add AL
      (NewSilenceDetector
        \<lparr>SilenceMinDuration = 90 * Millisecond, StepDuration = 30 * Millisecond\<rparr>)
      (w0 @ w1 @ w2 @ w3 @ w4 @ w5 @ w6 @ w7 @ w8 @ w9) 30 thr
    = Inr ([w0 @ w1],
        \<lparr>audioLevels = map AL [w2, w3, w4, w5, w6, w7, w8, w9],
           c = \<lparr>SilenceMinDuration = 90 * Millisecond, StepDuration = 30 * Millisecond\<rparr>,
           samples = w2 @ w3 @ w4 @ w5 @ w6 @ w7 @ w8 @ w9\<rparr>)
    \<and> length (w0 @ w1) = 60"
proof -
  let ?cfg = "\<lparr>SilenceMinDuration = 90 * Millisecond, StepDuration = 30 * Millisecond\<rparr>"
  let ?S = "w0 @ w1 @ w2 @ w3 @ w4 @ w5 @ w6 @ w7 @ w8 @ w9"
  let ?T = "w2 @ w3 @ w4 @ w5 @ w6 @ w7 @ w8 @ w9"
  let ?D = "\<lparr>audioLevels = [] :: 'a list, c = ?cfg, samples = []\<rparr>"
  let ?D1 = "\<lparr>audioLevels = [AL w0, AL w1, AL w2, AL w3, AL w4, AL w5, AL w6, AL w7, AL w8, AL w9], c = ?cfg,
      samples = ?S\<rparr>"
  let ?D2 = "\<lparr>audioLevels = [AL w2, AL w3, AL w4, AL w5, AL w6, AL w7, AL w8, AL w9], c = ?cfg, samples = ?T\<rparr>"
  have new: "NewSilenceDetector ?cfg = ?D"
    by (simp add: NewSilenceDetector_def Reset_def Let_def Millisecond_def)
  have up: "[0..<10] = [0, 1, 2, 3, 4, 5, 6, 7, 8, 9 :: nat]"
    by code_simp
  have nl: "newLevels AL 30 ?D ?S = ?D1"
    by (simp add: newLevels_def len up)
  have pr: "pruneStart thr 30 ?D1 = ?D1"
    by (simp add: pruneStart_def loud)
  have mid: "processSilencesInTheMiddle ?D1 30 5 3 [] = Inr ([w0 @ w1], ?D2)"
    by (simp add: processSilencesInTheMiddle_def tooManySilences_scenario Let_def
        slice_to_def slice_from_def len)
  have calm1: "processSilencesInTheMiddle ?D1 30 i 0 vs = Inr (vs, ?D1)" for i vs
    by (simp add: processSilencesInTheMiddle_calm tooManySilences_scenario)
  have calm2: "processSilencesInTheMiddle ?D2 30 i 0 vs = Inr (vs, ?D2)" for i vs
    by (simp add: processSilencesInTheMiddle_calm tooManySilences_scenario)
  have loop: "processSilences thr 30 ?D1 1 0 [] = Inr ([w0 @ w1], ?D2, 8, 0)"
    by (simp add: processSilences.simps mid calm1 calm2 loud silent loud')
  have en: "length (audioLevels ?D) * 30 + 30 \<le> length (samples ?D @ ?S)"
    by (simp add: len)
  show ?thesis
    unfolding new Add_enough [of 30 ?D ?S AL thr, OF _ en, simplified] nl pr
    by (simp add: loop calm2 len)
qed

theorem scenario_one_segment_witness:
  "length (replicate 30 (5 :: 32 word)) = 30
   \<and> length (replicate 30 (0 :: 32 word)) = 30
   \<and> \<not> length (filter (\<lambda>x. x \<noteq> 0) (replicate 30 (5 :: 32 word))) < 1
   \<and> length (filter (\<lambda>x. x \<noteq> 0) (replicate 30 (0 :: 32 word))) < 1
   \<and> Add (\<lambda>w. length (filter (\<lambda>x. x \<noteq> 0) w))
        (NewSilenceDetector
          \<lparr>SilenceMinDuration = 90 * Millisecond, StepDuration = 30 * Millisecond\<rparr>)
        (replicate 30 5 @ replicate 30 5 @ replicate 30 0 @ replicate 30 0 @ replicate 30 0
          @ replicate 30 5 @ replicate 30 5 @ replicate 30 5 @ replicate 30 5 @ replicate 30 5)
        30 1
      = Inr ([replicate 30 5 @ replicate 30 5],
          \<lparr>audioLevels = map (\<lambda>w. length (filter (\<lambda>x. x \<noteq> 0) w))
               [replicate 30 (0 :: 32 word), replicate 30 0, replicate 30 0, replicate 30 5,
                replicate 30 5, replicate 30 5, replicate 30 5, replicate 30 5],
             c = \<lparr>SilenceMinDuration = 90 * Millisecond, StepDuration = 30 * Millisecond\<rparr>,
             samples = replicate 30 0 @ replicate 30 0 @ replicate 30 0 @ replicate 30 5
               @ replicate 30 5 @ replicate 30 5 @ replicate 30 5 @ replicate 30 5\<rparr>)
   \<and> length (replicate 30 (5 :: 32 word) @ replicate 30 5) = 60"
proof -
  let ?AL = "\<lambda>w :: 32 word list. length (filter (\<lambda>x. x \<noteq> 0) w)"
  let ?L = "replicate 30 (5 :: 32 word)" and ?Z = "replicate 30 (0 :: 32 word)"
  have hL: "length ?L = 30" and hZ: "length ?Z = 30" by simp_all
  have nL: "\<not> ?AL ?L < 1" and sZ: "?AL ?Z < 1" by simp_all
  note s = scenario_one_segment [of ?L ?L ?Z ?Z ?Z ?L ?L ?L ?L ?L ?AL 1,
      OF hL hL hZ hZ hZ hL hL hL hL hL nL nL sZ sZ sZ nL nL nL nL nL]
  show ?thesis
    by (rule conjI hL hZ nL sZ s [THEN conjunct1] s [THEN conjunct2])+
qed

section \<open>A silence is cut when it lasted long enough\<close>

text \<open>
  Claim C6 says that a run of \<open>n\<close> silent windows inside the buffer, once it ends, is cut
  if and only if \<open>n * StepDuration \<ge> SilenceMinDuration\<close>, so that the least such \<open>n\<close> is
  cut. The test of line 118 is that comparison, but the count it receives is not always
  the length of the run: after a cut the scan keeps its index (see the section on two
  silences in one call) and skips the first windows of what follows. Here the windows, of two
  samples each, are loud, loud, three silent, loud, three silent, loud, and three silent
  windows are enough (90 ms with steps of 30 ms). The first run is cut. Of the second run,
  windows 6 to 8 of the chunk, the scan sees only window 8, counts one silent window at
  the loud window that ends the run and does not cut: the call returns one segment and
  keeps the second run and the loud window before it in the buffer.
\<close>

theorem confirmed_run_after_cut_not_split:
  "tooManySilences \<lparr>SilenceMinDuration = 90 * Millisecond, StepDuration = 30 * Millisecond\<rparr> 3
   \<and> Add (\<lambda>w. length (filter (\<lambda>x. x \<noteq> 0) w))
        (NewSilenceDetector
           \<lparr>SilenceMinDuration = 90 * Millisecond, StepDuration = 30 * Millisecond\<rparr>)
        [5, 5, 5, 5, 0, 0, 0, 0, 0, 0, 5, 5, 0, 0, 0, 0, 0, 0, 5, 5] 2 1
      = Inr ([[5, 5, 5, 5]],
             \<lparr>audioLevels = [0, 0, 0, 2, 0, 0, 0, 2],
                c = \<lparr>SilenceMinDuration = 90 * Millisecond, StepDuration = 30 * Millisecond\<rparr>,
                samples = [0, 0, 0, 0, 0, 0, 5, 5, 0, 0, 0, 0, 0, 0, 5, 5]\<rparr>)"
  by code_simp

text \<open>
  For the first run that a call scans the count is the length of the run, and the cut is
  made exactly when the run is long enough. Take a call that analyses at least one new
  window, and the levels \<open>d1\<close> it scans. Let windows \<open>a\<close> to \<open>a + r - 1\<close> be below the
  threshold, \<open>r \<ge> 1\<close> of them, after windows that are not (windows 1 to \<open>a - 1\<close>, and
  window 0 too when \<open>a = 1\<close>: the run is inside the buffer, not at its start), and let the
  run end at a window that is not below the threshold or at the end of the buffer. Then
  the first segment of the call is the \<open>a\<close> windows before the run if and only if
  \<open>r * StepDuration \<ge> SilenceMinDuration\<close>. The product is the one of 64-bit integers in
  the code: the statement is for products that do not overflow, and for a positive
  \<open>SilenceMinDuration\<close> (with one that is not, line 118 holds for a count of 0 and every
  loud window cuts).
\<close>

proposition minimum_duration_gate:
  fixes a r :: nat
  assumes "1 \<le> n"
    and "\<not> int (length (samples d @ smpls)) - int (length (audioLevels d)) * n < n"
    and "computeAudioLevels AL n (int (length (audioLevels d)) * n)
           ((int (length (samples d @ smpls)) - int (length (audioLevels d)) * n) div n) 0
           (d\<lparr>samples := samples d @ smpls\<rparr>) = Inr d1"
    and "0 < sint (SilenceMinDuration (c d))"
    and "1 \<le> a" and "1 \<le> r" and "a + r \<le> length (audioLevels d1)"
    and "a = 1 \<longrightarrow> \<not> audioLevels d1 ! 0 < thr"
    and "\<forall>j. 1 \<le> j \<and> j < a \<longrightarrow> \<not> audioLevels d1 ! j < thr"
    and "\<forall>j. a \<le> j \<and> j < a + r \<longrightarrow> audioLevels d1 ! j < thr"
    and "a + r < length (audioLevels d1) \<longrightarrow> \<not> audioLevels d1 ! (a + r) < thr"
    and "- (2 ^ 63) \<le> int r * sint (StepDuration (c d))"
    and "int r * sint (StepDuration (c d)) < 2 ^ 63"
  shows "\<exists>vs d'. Add AL d smpls n thr = Inr (vs, d')
    \<and> ((vs \<noteq> [] \<and> hd vs = take (a * nat n) (samples d @ smpls))
        \<longleftrightarrow> sint (SilenceMinDuration (c d)) \<le> int r * sint (StepDuration (c d)))"
proof -
  obtain N where N: "n = int N" "1 \<le> N" using assms(1) by (cases n) auto
  define S where "S = samples d @ smpls"
  define seg where "seg = take (a * N) S"
  let ?ls = "audioLevels d1"
  have en: "length (audioLevels d) * N + N \<le> length (samples d @ smpls)"
    using assms(2) enough_int [OF N(2), of d smpls] by (simp add: N(1))
  then have le: "length (audioLevels d) * N \<le> length (samples d @ smpls)" by simp
  have d1: "newLevels AL N d smpls = d1"
    using assms(3) computeAudioLevels_newLevels [OF N(2) le, of AL] by (simp add: N(1))
  have sz1: "length ?ls * N \<le> length (samples d1)"
    unfolding d1 [symmetric] by (rule newLevels_size [OF N(2) le])
  have s1: "samples d1 = S" and c1: "c d1 = c d"
    unfolding d1 [symmetric] by (simp_all add: newLevels_def S_def)
  have calm0: "\<not> tooManySilences (c d1) 0" using assms(4) by (simp add: c1 tooManySilences_0)
  have tm: "tooManySilences (c d1) (int r)
      \<longleftrightarrow> sint (SilenceMinDuration (c d)) \<le> int r * sint (StepDuration (c d))"
    unfolding c1 by (rule tooManySilences_no_overflow [OF assms(12,13)])
  have len2: "2 \<le> length ?ls" using assms(5,6,7) by linarith
  have "\<not> ?ls ! 0 < thr \<or> \<not> ?ls ! 1 < thr"
  proof (cases "a = 1")
    case True
    then show ?thesis using assms(8) by simp
  next
    case False
    then have "1 \<le> (1::nat) \<and> 1 < a" using assms(5) by simp
    then show ?thesis using assms(9) by blast
  qed
  from countSilencesAtStart_le_1 [OF len2 this]
  have "nat (countSilencesAtStart thr ?ls - 1) = 0" by simp
  then have pr: "pruneStart thr N d1 = d1" by (simp add: pruneStart_def)
  define b where "b = int (a + r)"
  have b0: "0 \<le> b" by (simp add: b_def)
  have loud: "processSilences thr (int N) d1 1 0 [] = processSilences thr (int N) d1 (int a) 0 []"
    by (rule processSilences_loud_run [OF calm0]) (use assms(5,7,9) in auto)
  have silent: "processSilences thr (int N) d1 (int a) 0 []
      = processSilences thr (int N) d1 b (0 + (b - int a)) []"
    by (rule processSilences_silent_run) (use assms(7,10) in \<open>auto simp: b_def\<close>)
  have scan: "processSilences thr (int N) d1 1 0 []
      = processSilences thr (int N) d1 b (int r) []"
    using loud silent by (simp add: b_def)
  have A: "Add AL d smpls n thr =
      (case processSilences thr (int N) d1 b (int r) [] of
         Inl e \<Rightarrow> Inl e
       | Inr (vs, d3, i, sc) \<Rightarrow> processSilencesInTheMiddle d3 (int N) i sc vs)"
    using Add_enough [OF N(2) en, of AL thr] len2 by (simp add: N(1) d1 pr Let_def scan)
  obtain vs d' where R: "Add AL d smpls n thr = Inr (vs, d')"
    using Add_returns [OF N(2), of d AL smpls thr] assms(4)
    by (auto simp: N(1) tooManySilences_0)
  have aN: "a * N \<le> length S"
  proof -
    have "a * N \<le> length ?ls * N" using assms(7) by (intro mult_right_mono) auto
    from order_trans [OF this sz1] show ?thesis by (simp add: s1)
  qed
  have lseg: "length seg = a * N" using aN by (simp add: seg_def)
  have ar: "b - int r = int a" by (simp add: b_def)
  have cut: "processSilencesInTheMiddle d1 (int N) b (int r) [] =
      (if tooManySilences (c d1) (int r)
       then Inr ([seg], d1\<lparr>audioLevels := drop a ?ls, samples := drop (a * N) S\<rparr>)
       else Inr ([], d1))"
  proof (cases "tooManySilences (c d1) (int r)")
    case False
    then show ?thesis by (simp add: processSilencesInTheMiddle_calm)
  next
    case True
    have "b - int r \<le> int (length ?ls)" using assms(7) by (simp add: b_def)
    moreover have "int r \<le> b" by (simp add: b_def)
    ultimately show ?thesis
      using processSilencesInTheMiddle_cut [OF True _ _ sz1, of b "[]"] True
      by (simp add: ar seg_def s1)
  qed
  have iff: "(vs \<noteq> [] \<and> hd vs = seg) \<longleftrightarrow> tooManySilences (c d1) (int r)"
  proof (cases "a + r < length ?ls")
    case False
    then have "\<not> b < int (length ?ls)" by (simp add: b_def)
    then have "processSilences thr (int N) d1 b (int r) []
        = Inr ([], d1, b, int r)"
      by (subst processSilences.simps) simp
    with A R cut show ?thesis by (auto split: if_splits)
  next
    case True
    then have lt: "b < int (length ?ls)" by (simp add: b_def)
    have "nat b = a + r" by (simp add: b_def)
    then have ld: "\<not> ?ls ! nat b < thr" using assms(11) True by simp
    have step: "processSilences thr (int N) d1 b (int r) [] =
        (case processSilencesInTheMiddle d1 (int N) b (int r) [] of
           Inl e \<Rightarrow> Inl e
         | Inr (vs1, d2) \<Rightarrow> processSilences thr (int N) d2 (b + 1) 0 vs1)"
      by (subst processSilences.simps) (simp add: lt ld)
    show ?thesis
    proof (cases "tooManySilences (c d1) (int r)")
      case tmT: True
      let ?dc = "d1\<lparr>audioLevels := drop a ?ls, samples := drop (a * N) S\<rparr>"
      have szc: "length (audioLevels ?dc) * N \<le> length (samples ?dc)"
      proof -
        have "(length ?ls - a) * N \<le> length S - a * N"
          using sz1 by (simp add: s1 diff_mult_distrib)
        then show ?thesis by simp
      qed
      have "(case processSilences thr (int N) ?dc (b + 1) 0 [seg] of
            Inl e \<Rightarrow> Inl e
          | Inr (vs, d3, i3, sc3) \<Rightarrow> processSilencesInTheMiddle d3 (int N) i3 sc3 vs)
         = Inr (vs, d')"
        using A R step cut tmT by simp
      from scan_first_segment [OF N(2) _ _ szc this]
      obtain new where "vs = [seg] @ new" using b0 by auto
      then show ?thesis using tmT by simp
    next
      case tmF: False
      have "(case processSilences thr (int N) d1 (b + 1) 0 [] of
            Inl e \<Rightarrow> Inl e
          | Inr (vs, d3, i3, sc3) \<Rightarrow> processSilencesInTheMiddle d3 (int N) i3 sc3 vs)
         = Inr (vs, d')"
        using A R step cut tmF by simp
      from scan_first_segment [OF N(2) _ _ sz1 this]
      have "vs = [] \<or> nat (b + 1 - 0) * N \<le> length (hd vs)" using b0 by auto
      moreover have "a * N < nat (b + 1 - 0) * N"
        using N(2) by (intro mult_strict_right_mono) (auto simp: b_def)
      ultimately have "vs = [] \<or> hd vs \<noteq> seg" using lseg by auto
      then show ?thesis using tmF by auto
    qed
  qed
  show ?thesis
    using R iff tm by (auto simp: seg_def S_def N(1))
qed

proposition minimum_duration_gate_example:
  "Add (\<lambda>w. length (filter (\<lambda>x. x \<noteq> 0) w))
     (NewSilenceDetector
        \<lparr>SilenceMinDuration = 90 * Millisecond, StepDuration = 30 * Millisecond\<rparr>)
     [5, 5, 5, 5, 0, 0, 0, 0, 0, 0, 5, 5] 2 1
   = Inr ([[5, 5, 5, 5]],
        \<lparr>audioLevels = [0, 0, 0, 2],
           c = \<lparr>SilenceMinDuration = 90 * Millisecond, StepDuration = 30 * Millisecond\<rparr>,
           samples = [0, 0, 0, 0, 0, 0, 5, 5]\<rparr>)
   \<and> hd [[5, 5, 5, 5 :: 32 word]] = take (2 * nat 2) ([] @ [5, 5, 5, 5, 0, 0, 0, 0, 0, 0, 5, 5])
   \<and> sint (SilenceMinDuration (c (NewSilenceDetector
          \<lparr>SilenceMinDuration = 90 * Millisecond, StepDuration = 30 * Millisecond\<rparr>
          :: nat SilenceDetector)))
       \<le> int 3 * sint (StepDuration (c (NewSilenceDetector
          \<lparr>SilenceMinDuration = 90 * Millisecond, StepDuration = 30 * Millisecond\<rparr>
          :: nat SilenceDetector)))
   \<and> Add (\<lambda>w. length (filter (\<lambda>x. x \<noteq> 0) w))
     (NewSilenceDetector
        \<lparr>SilenceMinDuration = 90 * Millisecond, StepDuration = 30 * Millisecond\<rparr>)
     [5, 5, 5, 5, 0, 0, 0, 0, 5, 5] 2 1
   = Inr ([],
        \<lparr>audioLevels = [2, 2, 0, 0, 2],
           c = \<lparr>SilenceMinDuration = 90 * Millisecond, StepDuration = 30 * Millisecond\<rparr>,
           samples = [5, 5, 5, 5, 0, 0, 0, 0, 5, 5]\<rparr>)
   \<and> \<not> sint (SilenceMinDuration (c (NewSilenceDetector
          \<lparr>SilenceMinDuration = 90 * Millisecond, StepDuration = 30 * Millisecond\<rparr>
          :: nat SilenceDetector)))
       \<le> int 2 * sint (StepDuration (c (NewSilenceDetector
          \<lparr>SilenceMinDuration = 90 * Millisecond, StepDuration = 30 * Millisecond\<rparr>
          :: nat SilenceDetector)))"
proof -
  let ?AL = "\<lambda>w :: 32 word list. length (filter (\<lambda>x. x \<noteq> 0) w)"
  let ?cfg = "\<lparr>SilenceMinDuration = 90 * Millisecond, StepDuration = 30 * Millisecond\<rparr>"
  let ?D = "NewSilenceDetector ?cfg :: nat SilenceDetector"
  let ?C1 = "[5, 5, 5, 5, 0, 0, 0, 0, 0, 0, 5, 5] :: 32 word list"
  let ?C2 = "[5, 5, 5, 5, 0, 0, 0, 0, 5, 5] :: 32 word list"
  let ?D1 = "\<lparr>audioLevels = [2, 2, 0, 0, 0, 2 :: nat], c = ?cfg, samples = ?C1\<rparr>"
  let ?D2 = "\<lparr>audioLevels = [2, 2, 0, 0, 2 :: nat], c = ?cfg, samples = ?C2\<rparr>"
  let ?R1 = "\<lparr>audioLevels = [0, 0, 0, 2 :: nat], c = ?cfg, samples = [0, 0, 0, 0, 0, 0, 5, 5]\<rparr>"
  have n: "(1::int) \<le> 2" by simp
  have pos: "0 < sint (SilenceMinDuration (c ?D))" by code_simp
  have cD: "c ?D = \<lparr>SilenceMinDuration = 90000000, StepDuration = 30000000\<rparr>"
    by code_simp
  have g1: "\<not> int (length (samples ?D @ ?C1)) - int (length (audioLevels ?D)) * 2 < 2"
    by code_simp
  have g2: "\<not> int (length (samples ?D @ ?C2)) - int (length (audioLevels ?D)) * 2 < 2"
    by code_simp
  have l1: "computeAudioLevels ?AL 2 (int (length (audioLevels ?D)) * 2)
      ((int (length (samples ?D @ ?C1)) - int (length (audioLevels ?D)) * 2) div 2) 0
      (?D\<lparr>samples := samples ?D @ ?C1\<rparr>) = Inr ?D1"
    by code_simp
  have l2: "computeAudioLevels ?AL 2 (int (length (audioLevels ?D)) * 2)
      ((int (length (samples ?D @ ?C2)) - int (length (audioLevels ?D)) * 2) div 2) 0
      (?D\<lparr>samples := samples ?D @ ?C2\<rparr>) = Inr ?D2"
    by code_simp
  have a1: "Add ?AL ?D ?C1 2 1 = Inr ([[5, 5, 5, 5]], ?R1)" by code_simp
  have a2: "Add ?AL ?D ?C2 2 1 = Inr ([], ?D2)" by code_simp
  have before: "\<forall>j. 1 \<le> j \<and> j < (2::nat) \<longrightarrow> \<not> ls ! j < (1::nat)"
    if "\<not> ls ! 1 < 1" for ls :: "nat list"
  proof (intro allI impI)
    fix j :: nat assume "1 \<le> j \<and> j < 2"
    then have "j = 1" by linarith
    then show "\<not> ls ! j < 1" using that by simp
  qed
  have run3: "\<forall>j. 2 \<le> j \<and> j < 2 + 3 \<longrightarrow> audioLevels ?D1 ! j < 1"
  proof (intro allI impI)
    fix j :: nat assume "2 \<le> j \<and> j < 2 + 3"
    then have "j = 2 \<or> j = 3 \<or> j = 4" by linarith
    then show "audioLevels ?D1 ! j < 1" by auto
  qed
  have run2: "\<forall>j. 2 \<le> j \<and> j < 2 + 2 \<longrightarrow> audioLevels ?D2 ! j < 1"
  proof (intro allI impI)
    fix j :: nat assume "2 \<le> j \<and> j < 2 + 2"
    then have "j = 2 \<or> j = 3" by linarith
    then show "audioLevels ?D2 ! j < 1" by auto
  qed
  have "\<exists>vs d'. Add ?AL ?D ?C1 2 1 = Inr (vs, d')
    \<and> ((vs \<noteq> [] \<and> hd vs = take (2 * nat 2) (samples ?D @ ?C1))
        \<longleftrightarrow> sint (SilenceMinDuration (c ?D)) \<le> int 3 * sint (StepDuration (c ?D)))"
    by (rule minimum_duration_gate [OF n g1 l1 pos _ _ _ _ before run3])
      (simp_all add: cD)
  then have w1: "(([[5, 5, 5, 5]] :: 32 word list list) \<noteq> []
        \<and> hd [[5, 5, 5, 5]] = take (2 * nat 2) (samples ?D @ ?C1))
      \<longleftrightarrow> sint (SilenceMinDuration (c ?D)) \<le> int 3 * sint (StepDuration (c ?D))"
    unfolding a1 by simp
  have "\<exists>vs d'. Add ?AL ?D ?C2 2 1 = Inr (vs, d')
    \<and> ((vs \<noteq> [] \<and> hd vs = take (2 * nat 2) (samples ?D @ ?C2))
        \<longleftrightarrow> sint (SilenceMinDuration (c ?D)) \<le> int 2 * sint (StepDuration (c ?D)))"
    by (rule minimum_duration_gate [OF n g2 l2 pos _ _ _ _ before run2])
      (simp_all add: cD)
  then have w2: "(([] :: 32 word list list) \<noteq> []
        \<and> hd [] = take (2 * nat 2) (samples ?D @ ?C2))
      \<longleftrightarrow> sint (SilenceMinDuration (c ?D)) \<le> int 2 * sint (StepDuration (c ?D))"
    unfolding a2 by simp
  have sD: "samples ?D = []" by code_simp
  have c2: "hd [[5, 5, 5, 5 :: 32 word]] = take (2 * nat 2) ([] @ ?C1)" by simp
  have c3: "sint (SilenceMinDuration (c ?D)) \<le> int 3 * sint (StepDuration (c ?D))"
    using w1 c2 by (simp add: sD)
  have c5: "\<not> sint (SilenceMinDuration (c ?D)) \<le> int 2 * sint (StepDuration (c ?D))"
    using w2 by simp
  show ?thesis by (rule conjI a1 c2 c3 a2 c5)+
qed

end
